theory Spec2Isabelle
  imports Main "HOL-Library.AList"
begin

section \<open>Syntax trees\<close>

text \<open>
  The analyzer of \<^verbatim>\<open>codeanalyzer.py\<close> walks the tree that Python's \<^verbatim>\<open>ast.parse\<close>
  returns. Only four node classes are told apart by the code (\<^verbatim>\<open>FunctionDef\<close>,
  \<^verbatim>\<open>Call\<close>, \<^verbatim>\<open>Name\<close>, \<^verbatim>\<open>Attribute\<close>); \<^verbatim>\<open>AsyncFunctionDef\<close> is kept apart
  as well, because it is the other kind of function definition of the language. Every
  other node class (\<^verbatim>\<open>Module\<close>, \<^verbatim>\<open>ClassDef\<close>, \<^verbatim>\<open>Expr\<close>, \<^verbatim>\<open>arguments\<close>,
  \<^verbatim>\<open>Lambda\<close>, \<^verbatim>\<open>If\<close>, ...) is \<open>Other\<close> with its child nodes in field order.

  The fields of a definition are, in the order of \<^verbatim>\<open>_fields\<close>: name, args, body,
  decorator_list, returns, type_params (the line number is an attribute). The fields
  of a call are func, args, keywords. Fields that hold no node (\<^verbatim>\<open>type_comment\<close>) and
  the expression-context leaves (\<^verbatim>\<open>Load\<close>, \<^verbatim>\<open>Store\<close>), which have no fields and no
  visitor method, are left out.
\<close>

datatype node =
    FunctionDef string int node "node list" "node list" "node option" "node list"
  | AsyncFunctionDef string int node "node list" "node list" "node option" "node list"
  | Call node "node list" "node list"
  | Name string
  | Attribute node string
  | Other "node list"

text \<open>\<^verbatim>\<open>ast.iter_child_nodes\<close>: the child nodes, field by field.\<close>

fun iter_child_nodes :: "node \<Rightarrow> node list" where
  "iter_child_nodes (FunctionDef nm lineno args body decorator_list returns type_params) =
     args # body @ decorator_list @ (case returns of None \<Rightarrow> [] | Some r \<Rightarrow> [r]) @ type_params"
| "iter_child_nodes (AsyncFunctionDef nm lineno args body decorator_list returns type_params) =
     args # body @ decorator_list @ (case returns of None \<Rightarrow> [] | Some r \<Rightarrow> [r]) @ type_params"
| "iter_child_nodes (Call func args keywords) = func # args @ keywords"
| "iter_child_nodes (Name ident) = []"
| "iter_child_nodes (Attribute v attr) = [v]"
| "iter_child_nodes (Other children) = children"

section \<open>Records of the analyzer and of the report\<close>

text \<open>
  The dictionaries of the source are insertion-ordered: they are association lists
  here, with \<^const>\<open>AList.update\<close> for \<^verbatim>\<open>d[k] = v\<close> (an existing key keeps its
  position and takes the new value, a new key goes to the end).
\<close>

record func_info =
  name :: string
  "file" :: string
  line :: int
  calls :: "string list"

type_synonym func_dict = "(string \<times> func_info) list"

record analyzer =
  file_path :: string
  "functions" :: func_dict
  current_function :: "string option"

record relationship =
  caller :: string
  callee :: string
  caller_file :: string

record call_graph =
  repository :: string
  total_functions :: int
  "functions" :: func_dict
  call_relationships :: "relationship list"

text \<open>
  The exceptions of the model, all of them below \<^verbatim>\<open>Exception\<close>. Exceptions that are
  not (\<^verbatim>\<open>KeyboardInterrupt\<close>, \<^verbatim>\<open>SystemExit\<close>) are outside the model.
\<close>

datatype error =
    KeyError string | RecursionError | SyntaxError | OSError
  | UnicodeDecodeError | UnicodeEncodeError | ValueError

text \<open>
  The lines the program prints while it analyzes files. Standard output is a parameter
  of the model, \<open>stdout\<close>: it says of a line whether \<^verbatim>\<open>print\<close> writes it (\<open>None\<close>) or
  raises (a file name or a message that the encoding of the stream cannot encode, a
  closed pipe). Whether a line is written is taken to depend on the line only. A
  string is a list of 8-bit characters; those from 128 on stand for the characters
  of a name that are not ASCII.
\<close>

datatype message = Found nat | Analyzing string | ErrorAnalyzing string error


section \<open>The visitor\<close>

text \<open>\<^verbatim>\<open>os.path.basename\<close> (POSIX): what follows the last slash.\<close>

definition basename :: "string \<Rightarrow> string" where
  "basename p = rev (takeWhile (\<lambda>c. c \<noteq> CHR ''/'') (rev p))"

text \<open>
  The truth value Python gives an optional string in \<^verbatim>\<open>if self.current_function:\<close>
  and \<^verbatim>\<open>if called_func:\<close>: \<^verbatim>\<open>None\<close> and the empty string are false.
\<close>

fun truthy :: "string option \<Rightarrow> bool" where
  "truthy None = False"
| "truthy (Some s) = (s \<noteq> [])"

text \<open>\<^verbatim>\<open>CallGraphAnalyzer.__init__\<close>\<close>

definition CallGraphAnalyzer :: "string \<Rightarrow> analyzer" where
  "CallGraphAnalyzer fp =
     \<lparr>file_path = fp, analyzer.functions = [], current_function = None\<rparr>"

text \<open>\<^verbatim>\<open>CallGraphAnalyzer._get_call_name\<close>\<close>

fun get_call_name :: "node \<Rightarrow> string option" where
  "get_call_name (Call (Name ident) args keywords) = Some ident"
| "get_call_name (Call (Attribute v attr) args keywords) = Some attr"
| "get_call_name node = None"


lemma size_iter_child_nodes:
  "size_list size (iter_child_nodes n) \<le> size n"
  by (cases n) (auto split: option.splits)

text \<open>
  \<open>visit\<close> is the dispatch of \<^verbatim>\<open>ast.NodeVisitor.visit\<close> on the class of the node,
  \<open>generic_visit\<close> and \<open>visit_nodes\<close> are \<^verbatim>\<open>ast.NodeVisitor.generic_visit\<close> and its
  loop over the child nodes, \<open>visit_FunctionDef\<close> and \<open>visit_Call\<close> are the two
  methods of the class. The analyzer is passed in and returned; the subscript
  \<^verbatim>\<open>self.functions[self.current_function]\<close> raises \<^verbatim>\<open>KeyError\<close> on a missing key.

  The methods call each other once for every level of the tree, and the interpreter
  raises \<^verbatim>\<open>RecursionError\<close> when the calls nest deeper than its recursion limit
  allows. \<open>depth\<close> is the number of nested calls of these methods that are still
  allowed: a method called with none left raises, and what it calls has one less. The
  frames of the helpers a method calls (\<^verbatim>\<open>iter_fields\<close>, \<^verbatim>\<open>os.path.basename\<close>,
  \<^verbatim>\<open>_get_call_name\<close>, the built-in functions) are not counted apart, so the depth
  at which a given tree raises is the interpreter's up to a few frames; the properties
  proved below hold at every depth. An exception leaves a method at once: the
  assignment after \<^verbatim>\<open>generic_visit\<close> in \<open>visit_FunctionDef\<close> is not reached.
\<close>

function (sequential)
  visit :: "nat \<Rightarrow> analyzer \<Rightarrow> node \<Rightarrow> error + analyzer" and
  visit_FunctionDef :: "nat \<Rightarrow> analyzer \<Rightarrow> node \<Rightarrow> error + analyzer" and
  visit_Call :: "nat \<Rightarrow> analyzer \<Rightarrow> node \<Rightarrow> error + analyzer" and
  generic_visit :: "nat \<Rightarrow> analyzer \<Rightarrow> node \<Rightarrow> error + analyzer" and
  visit_nodes :: "nat \<Rightarrow> analyzer \<Rightarrow> node list \<Rightarrow> error + analyzer"
where
  "visit depth self (FunctionDef nm lineno args body decorator_list returns type_params) =
     (if depth = 0 then Inl RecursionError
      else visit_FunctionDef (depth - 1) self
             (FunctionDef nm lineno args body decorator_list returns type_params))"
| "visit depth self (Call func args keywords) =
     (if depth = 0 then Inl RecursionError
      else visit_Call (depth - 1) self (Call func args keywords))"
| "visit depth self node =
     (if depth = 0 then Inl RecursionError else generic_visit (depth - 1) self node)"
| "visit_FunctionDef depth self
       (FunctionDef func_name lineno args body decorator_list returns type_params) =
     (if depth = 0 then Inl RecursionError
      else
        (case generic_visit (depth - 1)
                (self\<lparr>analyzer.functions :=
                         AList.update func_name
                           \<lparr>name = func_name, file = basename (file_path self),
                            line = lineno, calls = []\<rparr>
                           (analyzer.functions self),
                       current_function := Some func_name\<rparr>)
                (FunctionDef func_name lineno args body decorator_list returns type_params) of
           Inl e \<Rightarrow> Inl e
         | Inr self' \<Rightarrow> Inr (self'\<lparr>current_function := None\<rparr>)))"
| "visit_Call depth self node =
     (if depth = 0 then Inl RecursionError
      else if truthy (current_function self) then
        (let called_func = get_call_name node in
         if truthy called_func then
           (case map_of (analyzer.functions self) (the (current_function self)) of
              None \<Rightarrow> Inl (KeyError (the (current_function self)))
            | Some info \<Rightarrow>
                generic_visit (depth - 1)
                  (self\<lparr>analyzer.functions :=
                           AList.update (the (current_function self))
                             (info\<lparr>calls := calls info @ [the called_func]\<rparr>)
                             (analyzer.functions self)\<rparr>)
                  node)
         else generic_visit (depth - 1) self node)
      else generic_visit (depth - 1) self node)"
| "generic_visit depth self node =
     (if depth = 0 then Inl RecursionError
      else visit_nodes (depth - 1) self (iter_child_nodes node))"
| "visit_nodes depth self [] = Inr self"
| "visit_nodes depth self (item # items) =
     (case visit depth self item of
        Inl e \<Rightarrow> Inl e
      | Inr self' \<Rightarrow> visit_nodes depth self' items)"
  by pat_completeness auto
termination
  by (relation "measure (case_sum
        (case_sum (\<lambda>(depth, self, n). 4 * size n + 3) (\<lambda>(depth, self, n). 4 * size n + 2))
        (case_sum (\<lambda>(depth, self, n). 4 * size n + 2)
          (case_sum (\<lambda>(depth, self, n). 4 * size n + 1)
                    (\<lambda>(depth, self, ns). 4 * size_list size ns))))")
     (auto simp: less_Suc_eq_le size_iter_child_nodes)

declare visit_Call.simps [simp del] generic_visit.simps [simp del]

section \<open>Files and the report\<close>

text \<open>
  The statements under \<^verbatim>\<open>try\<close> in \<open>analyze_file\<close>. Reading the file and parsing its
  text are the work of Python's library; they are the parameters \<open>read_text\<close> and
  \<open>parse\<close>, each returning the exception it raised on the left. \<open>limit\<close> is the
  depth that the recursion limit leaves for the visitor.
\<close>

definition analyze_file_try ::
  "nat \<Rightarrow> (string \<Rightarrow> error + node) \<Rightarrow> (string \<Rightarrow> error + string) \<Rightarrow> string
     \<Rightarrow> error + func_dict" where
  "analyze_file_try limit parse read_text fp =
     (case read_text fp of
        Inl e \<Rightarrow> Inl e
      | Inr content \<Rightarrow>
          (case parse content of
             Inl e \<Rightarrow> Inl e
           | Inr tree \<Rightarrow>
               (case visit limit (CallGraphAnalyzer fp) tree of
                  Inl e \<Rightarrow> Inl e
                | Inr analyzer \<Rightarrow> Inr (analyzer.functions analyzer))))"

text \<open>
  \<open>analyze_file\<close>: the handler \<^verbatim>\<open>except Exception\<close> prints a line and returns the
  empty dictionary; an exception of that \<^verbatim>\<open>print\<close> leaves the function. The result
  is the dictionary and the lines printed.
\<close>

definition analyze_file ::
  "(message \<Rightarrow> error option) \<Rightarrow> nat \<Rightarrow> (string \<Rightarrow> error + node)
     \<Rightarrow> (string \<Rightarrow> error + string) \<Rightarrow> string \<Rightarrow> error + func_dict \<times> message list" where
  "analyze_file stdout limit parse read_text fp =
     (case analyze_file_try limit parse read_text fp of
        Inr funcs \<Rightarrow> Inr (funcs, [])
      | Inl e \<Rightarrow>
          (case stdout (ErrorAnalyzing fp e) of
             Some e' \<Rightarrow> Inl e'
           | None \<Rightarrow> Inr ([], [ErrorAnalyzing fp e])))"

text \<open>\<^verbatim>\<open>dict.update\<close>: the items of the argument are stored one by one, in order.\<close>

definition dict_update :: "('k \<times> 'v) list \<Rightarrow> ('k \<times> 'v) list \<Rightarrow> ('k \<times> 'v) list" where
  "dict_update d other = fold (\<lambda>(k, v). AList.update k v) other d"

text \<open>
  The loop of \<open>generate_call_graph\<close> over the files found. Nothing handles an
  exception of its \<^verbatim>\<open>print\<close> or of \<open>analyze_file\<close>: it ends the loop and the run.
\<close>

fun analyze_files ::
  "(message \<Rightarrow> error option) \<Rightarrow> nat \<Rightarrow> (string \<Rightarrow> error + node)
     \<Rightarrow> (string \<Rightarrow> error + string) \<Rightarrow> string list
     \<Rightarrow> func_dict \<times> message list \<Rightarrow> error + func_dict \<times> message list" where
  "analyze_files stdout limit parse read_text [] (all_functions, out) =
     Inr (all_functions, out)"
| "analyze_files stdout limit parse read_text (fp # fps) (all_functions, out) =
     (case stdout (Analyzing (basename fp)) of
        Some e \<Rightarrow> Inl e
      | None \<Rightarrow>
          (case analyze_file stdout limit parse read_text fp of
             Inl e \<Rightarrow> Inl e
           | Inr (funcs, printed) \<Rightarrow>
               analyze_files stdout limit parse read_text fps
                 (dict_update all_functions funcs,
                  out @ Analyzing (basename fp) # printed)))"

text \<open>The two nested loops that append one relationship for each call of each function.\<close>

definition create_call_relationships :: "func_dict \<Rightarrow> relationship list" where
  "create_call_relationships all_functions =
     fold (\<lambda>(func_name, func_info) rels.
             fold (\<lambda>called_func rels.
                     rels @ [\<lparr>caller = func_name, callee = called_func,
                              caller_file = file func_info\<rparr>])
                  (calls func_info) rels)
          all_functions []"

text \<open>
  \<open>generate_call_graph\<close>, from the list of files to the value of
  \<^verbatim>\<open>return call_graph\<close>: cloning the repository, walking its directory and the
  \<^verbatim>\<open>finally\<close> clause that removes it are outside the model, and \<open>python_files\<close>
  is what \<^verbatim>\<open>find_python_files\<close> returned. The result is the report and the lines
  printed by this part of the function, or the exception that ended it.
\<close>

definition generate_call_graph ::
  "(message \<Rightarrow> error option) \<Rightarrow> nat \<Rightarrow> (string \<Rightarrow> error + node)
     \<Rightarrow> (string \<Rightarrow> error + string) \<Rightarrow> string \<Rightarrow> string list
     \<Rightarrow> error + call_graph \<times> message list" where
  "generate_call_graph stdout limit parse read_text repo_url python_files =
     (case stdout (Found (length python_files)) of
        Some e \<Rightarrow> Inl e
      | None \<Rightarrow>
          (case analyze_files stdout limit parse read_text python_files
                  ([], [Found (length python_files)]) of
             Inl e \<Rightarrow> Inl e
           | Inr (all_functions, out) \<Rightarrow>
               Inr (\<lparr>repository = repo_url,
                     total_functions = int (length all_functions),
                     functions = all_functions,
                     call_relationships = create_call_relationships all_functions\<rparr>,
                    out)))"

section \<open>Notions for stating the properties\<close>

text \<open>
  The nodes of a tree in depth-first pre-order: the order in which \<open>visit\<close> reaches
  them.
\<close>

lemma size_member: "c \<in> set xs \<Longrightarrow> size (c::node) < size_list size xs"
  by (induction xs) auto

lemma size_child [termination_simp]:
  "c \<in> set (iter_child_nodes n) \<Longrightarrow> size c < size n"
  using size_member [of c "iter_child_nodes n"] size_iter_child_nodes [of n] by simp

fun preorder :: "node \<Rightarrow> node list" where
  "preorder n = n # concat (map preorder (iter_child_nodes n))"

declare preorder.simps [simp del]

definition preorder_list :: "node list \<Rightarrow> node list" where
  "preorder_list ts = concat (map preorder ts)"

text \<open>
  The nodes that \<open>visit\<close> hands to \<open>visit_FunctionDef\<close>, and those among them that
  define the name \<open>n\<close>.
\<close>

fun is_FunctionDef :: "node \<Rightarrow> bool" where
  "is_FunctionDef (FunctionDef nm lineno args body decorator_list returns type_params) = True"
| "is_FunctionDef node = False"

fun is_def :: "string \<Rightarrow> node \<Rightarrow> bool" where
  "is_def n (FunctionDef nm lineno args body decorator_list returns type_params) = (nm = n)"
| "is_def n node = False"

text \<open>Whether a definition occurs anywhere in a list of trees.\<close>

definition has_def :: "node list \<Rightarrow> bool" where
  "has_def ts = (filter is_FunctionDef (preorder_list ts) \<noteq> [])"

text \<open>
  What \<open>visit_Call\<close> appends at a node when a function is active: the name of the
  call when it is not false, nothing otherwise (and nothing at a node that is no call).
\<close>

definition call_name_of :: "node \<Rightarrow> string list" where
  "call_name_of t = (if truthy (get_call_name t) then [the (get_call_name t)] else [])"

text \<open>
  The calls that a traversal of the trees appends to the function active at its start:
  those reached, in pre-order, before the first definition. Entering a definition
  makes another function active and leaving it makes none active, so nothing reached
  later is appended to the first one.
\<close>

definition owned_calls :: "node list \<Rightarrow> string list" where
  "owned_calls ts =
     concat (map call_name_of (takeWhile (\<lambda>t. \<not> is_FunctionDef t) (preorder_list ts)))"

text \<open>
  The record that a definition in the file \<open>fp\<close> ends with, when no definition of the
  same name is nested in it. A definition with the empty name is never active.
\<close>

fun record_of :: "string \<Rightarrow> node \<Rightarrow> func_info" where
  "record_of fp (FunctionDef nm lineno args body decorator_list returns type_params) =
     \<lparr>name = nm, file = basename fp, line = lineno,
      calls = (if nm = [] then []
               else owned_calls (iter_child_nodes
                      (FunctionDef nm lineno args body decorator_list returns type_params)))\<rparr>"

text \<open>
  The dictionary after the analyzer \<open>a\<close> has traversed the trees \<open>ts\<close>, as a lookup:
  a name defined in the trees has the record of its last definition; any other name
  keeps its record, with the calls the traversal appends when it is the active one.
\<close>

definition add_calls :: "string list \<Rightarrow> func_info \<Rightarrow> func_info" where
  "add_calls cs r = r\<lparr>calls := calls r @ cs\<rparr>"

definition lookup_after :: "analyzer \<Rightarrow> node list \<Rightarrow> string \<Rightarrow> func_info option" where
  "lookup_after a ts n =
     (if filter (is_def n) (preorder_list ts) = []
      then (if current_function a = Some n \<and> n \<noteq> []
            then map_option (add_calls (owned_calls ts)) (map_of (analyzer.functions a) n)
            else map_of (analyzer.functions a) n)
      else Some (record_of (file_path a) (last (filter (is_def n) (preorder_list ts)))))"

text \<open>The invariant of the analyzer: an active function name is a key of the dictionary.\<close>

definition inv :: "analyzer \<Rightarrow> bool" where
  "inv a =
     (case current_function a of
        None \<Rightarrow> True
      | Some n \<Rightarrow> n \<in> fst ` set (analyzer.functions a))"

text \<open>What a traversal of the trees \<open>ts\<close> from \<open>a\<close> has established when it returns \<open>a'\<close>.\<close>

definition post :: "analyzer \<Rightarrow> node list \<Rightarrow> analyzer \<Rightarrow> bool" where
  "post a ts a' \<longleftrightarrow>
     file_path a' = file_path a \<and>
     current_function a' = (if has_def ts then None else current_function a) \<and>
     (\<forall>n. map_of (analyzer.functions a') n = lookup_after a ts n) \<and>
     (distinct (map fst (analyzer.functions a)) \<longrightarrow> distinct (map fst (analyzer.functions a')))"

text \<open>
  The names that the calls of a list of trees resolve to, in pre-order. Without a
  function definition among the trees, these are the calls a traversal appends.
\<close>

definition calls_preorder :: "node list \<Rightarrow> string list" where
  "calls_preorder ts = concat (map call_name_of (preorder_list ts))"

text \<open>The analyzer after the call \<open>c\<close> was appended to the calls of its active function.\<close>

definition append_call :: "analyzer \<Rightarrow> string \<Rightarrow> analyzer" where
  "append_call a c =
     (case map_of (analyzer.functions a) (the (current_function a)) of
        Some info \<Rightarrow>
          a\<lparr>analyzer.functions :=
              AList.update (the (current_function a)) (info\<lparr>calls := calls info @ [c]\<rparr>)
                (analyzer.functions a)\<rparr>
      | None \<Rightarrow> a)"


text \<open>The line of a definition node.\<close>

fun def_line :: "node \<Rightarrow> int" where
  "def_line (FunctionDef nm lineno args body decorator_list returns type_params) = lineno"

text \<open>The relationships of one function, in the order of its calls.\<close>

definition relationships_of :: "string \<times> func_info \<Rightarrow> relationship list" where
  "relationships_of item =
     map (\<lambda>c. \<lparr>caller = fst item, callee = c, caller_file = file (snd item)\<rparr>)
         (calls (snd item))"


text \<open>
  The height of a tree, and the greatest height in a list of trees. A node without
  children has height 1.
\<close>

fun height :: "node \<Rightarrow> nat" where
  "height n = Suc (foldr max (map height (iter_child_nodes n)) 0)"

declare height.simps [simp del]

definition height_list :: "node list \<Rightarrow> nat" where
  "height_list ts = foldr max (map height ts) 0"

text \<open>
  The dictionary that \<open>analyze_file\<close> returns for a file when it returns: the one the
  visitor built, or the empty one when reading, parsing or visiting raised.
\<close>

definition file_result ::
  "nat \<Rightarrow> (string \<Rightarrow> error + node) \<Rightarrow> (string \<Rightarrow> error + string) \<Rightarrow> string
     \<Rightarrow> func_dict" where
  "file_result limit parse read_text fp =
     (case analyze_file_try limit parse read_text fp of Inl e \<Rightarrow> [] | Inr funcs \<Rightarrow> funcs)"

text \<open>
  The line that the handler in \<open>analyze_file\<close> prints for a file (none when the
  analysis completes), the lines that the loop over the files prints, and the
  exception of the first line of a list, if any, that \<^verbatim>\<open>print\<close> does not write.
\<close>

definition diagnostics ::
  "nat \<Rightarrow> (string \<Rightarrow> error + node) \<Rightarrow> (string \<Rightarrow> error + string) \<Rightarrow> string
     \<Rightarrow> message list" where
  "diagnostics limit parse read_text fp =
     (case analyze_file_try limit parse read_text fp of
        Inl e \<Rightarrow> [ErrorAnalyzing fp e]
      | Inr funcs \<Rightarrow> [])"

definition run_output ::
  "nat \<Rightarrow> (string \<Rightarrow> error + node) \<Rightarrow> (string \<Rightarrow> error + string) \<Rightarrow> string list
     \<Rightarrow> message list" where
  "run_output limit parse read_text fps =
     concat (map (\<lambda>fp. Analyzing (basename fp) # diagnostics limit parse read_text fp) fps)"

fun raised :: "(message \<Rightarrow> error option) \<Rightarrow> message list \<Rightarrow> error option" where
  "raised stdout [] = None"
| "raised stdout (m # ms) = (case stdout m of Some e \<Rightarrow> Some e | None \<Rightarrow> raised stdout ms)"

text \<open>The registry after the results of the files were merged into \<open>all_functions\<close>.\<close>

definition merged ::
  "nat \<Rightarrow> (string \<Rightarrow> error + node) \<Rightarrow> (string \<Rightarrow> error + string) \<Rightarrow> string list
     \<Rightarrow> func_dict \<Rightarrow> func_dict" where
  "merged limit parse read_text fps all_functions =
     fold (\<lambda>fp acc. dict_update acc (file_result limit parse read_text fp)) fps all_functions"

text \<open>The report that is built from a registry.\<close>

definition report_of :: "string \<Rightarrow> func_dict \<Rightarrow> call_graph" where
  "report_of repo_url all_functions =
     \<lparr>repository = repo_url,
      total_functions = int (length all_functions),
      functions = all_functions,
      call_relationships = concat (map relationships_of all_functions)\<rparr>"

text \<open>
  The tree of a file whose analysis completes: the file is read, its text is parsed
  and the visit of the tree returns.
\<close>

definition analyzed_tree ::
  "nat \<Rightarrow> (string \<Rightarrow> error + node) \<Rightarrow> (string \<Rightarrow> error + string) \<Rightarrow> string
     \<Rightarrow> node option" where
  "analyzed_tree limit parse read_text fp =
     (case read_text fp of
        Inl e \<Rightarrow> None
      | Inr content \<Rightarrow>
          (case parse content of
             Inl e \<Rightarrow> None
           | Inr tree \<Rightarrow>
               (case visit limit (CallGraphAnalyzer fp) tree of
                  Inl e \<Rightarrow> None
                | Inr analyzer \<Rightarrow> Some tree)))"



definition defs_named :: "string \<Rightarrow> (string \<times> node) list \<Rightarrow> (string \<times> node) list" where
  "defs_named n ds = filter (\<lambda>d. is_def n (snd d)) ds"

text \<open>
  Two analyzers that differ at most in the directory part of their paths: the same
  dictionary, the same active function, the same base name.
\<close>

definition same_but_dir :: "analyzer \<Rightarrow> analyzer \<Rightarrow> bool" where
  "same_but_dir a1 a2 \<longleftrightarrow>
     analyzer.functions a1 = analyzer.functions a2 \<and>
     current_function a1 = current_function a2 \<and>
     basename (file_path a1) = basename (file_path a2)"

text \<open>
  A standard output that writes every line, and one whose encoding has the ASCII
  characters only: there \<^verbatim>\<open>print\<close> raises \<^verbatim>\<open>UnicodeEncodeError\<close> on a line with
  another character in the file name or path it shows (a name that is not valid
  UTF-8 reaches the program with surrogate escapes, which no encoding of a stream
  accepts).
\<close>

definition stdout_ok :: "message \<Rightarrow> error option" where
  "stdout_ok m = None"

fun shown :: "message \<Rightarrow> string" where
  "shown (Found n) = []"
| "shown (Analyzing nm) = nm"
| "shown (ErrorAnalyzing fp e) = fp"

definition stdout_ascii :: "message \<Rightarrow> error option" where
  "stdout_ascii m =
     (if list_all (\<lambda>c. of_char c < (128::nat)) (shown m) then None
      else Some UnicodeEncodeError)"

section \<open>Example trees\<close>

text \<open>Readable names for three of the node classes that are \<open>Other\<close> here.\<close>

abbreviation Module :: "node list \<Rightarrow> node" where "Module body \<equiv> Other body"
abbreviation Expr :: "node \<Rightarrow> node" where "Expr v \<equiv> Other [v]"
abbreviation arguments :: "node list \<Rightarrow> node" where "arguments xs \<equiv> Other xs"

text \<open>
  \<^verbatim>\<open>def outer():\<close> with, in its body, \<^verbatim>\<open>x()\<close>, then \<^verbatim>\<open>def inner(): y()\<close>, then
  \<^verbatim>\<open>z()\<close>.
\<close>

definition nested_example :: node where
  "nested_example = Module
     [FunctionDef ''outer'' 1 (arguments [])
        [Expr (Call (Name ''x'') [] []),
         FunctionDef ''inner'' 3 (arguments []) [Expr (Call (Name ''y'') [] [])] [] None [],
         Expr (Call (Name ''z'') [] [])]
        [] None []]"

text \<open>An analyzer inside the definition of \<open>f\<close>, before any call was seen.\<close>

definition active_example :: analyzer where
  "active_example =
     \<lparr>file_path = ''/repo/a.py'',
      analyzer.functions = [(''f'', \<lparr>name = ''f'', file = ''a.py'', line = 1, calls = []\<rparr>)],
      current_function = Some ''f''\<rparr>"

text \<open>\<^verbatim>\<open>def a(): b(); c.d()\<close> on line 1.\<close>

definition two_calls_example :: node where
  "two_calls_example = Module
     [FunctionDef ''a'' 1 (arguments [])
        [Expr (Call (Name ''b'') [] []),
         Expr (Call (Attribute (Name ''c'') ''d'') [] [])]
        [] None []]"


text \<open>
  \<^verbatim>\<open>async def fetch(): pass\<close>, and a file that defines \<open>f\<close> on line 1 and again on
  line 4.
\<close>

definition async_example :: node where
  "async_example = Module [AsyncFunctionDef ''fetch'' 1 (arguments []) [] [] None []]"

definition redefined_example :: node where
  "redefined_example = Module
     [FunctionDef ''f'' 1 (arguments []) [Expr (Call (Name ''a1'') [] [])] [] None [],
      FunctionDef ''f'' 4 (arguments []) [Expr (Call (Name ''a2'') [] [])] [] None []]"

text \<open>
  Two files: \<^verbatim>\<open>a.py\<close> defines \<open>foo\<close> (calling \<open>a1\<close>) and \<open>bar\<close> (calling \<open>b1\<close>),
  \<^verbatim>\<open>b.py\<close> defines \<open>foo\<close> again (calling \<open>c1\<close>). The text of a file is its path here,
  and \<open>parse_two\<close> returns the tree of the file.
\<close>

definition tree_a :: node where
  "tree_a = Module
     [FunctionDef ''foo'' 1 (arguments []) [Expr (Call (Name ''a1'') [] [])] [] None [],
      FunctionDef ''bar'' 3 (arguments []) [Expr (Call (Name ''b1'') [] [])] [] None []]"

definition tree_b :: node where
  "tree_b = Module
     [FunctionDef ''foo'' 7 (arguments []) [Expr (Call (Name ''c1'') [] [])] [] None []]"

definition parse_two :: "string \<Rightarrow> error + node" where
  "parse_two content =
     (if content = ''/repo/a.py'' then Inr tree_a
      else if content = ''/repo/b.py'' then Inr tree_b
      else Inl SyntaxError)"

definition read_two :: "string \<Rightarrow> error + string" where
  "read_two fp = Inr fp"

text \<open>
  A reader for the two files of the example wherever their directory is: the text of
  a file is \<^verbatim>\<open>/repo/\<close> followed by its base name, which \<open>parse_two\<close> maps to its tree.
\<close>

definition read_by_name :: "string \<Rightarrow> error + string" where
  "read_by_name fp = Inr (''/repo/'' @ basename fp)"

text \<open>
  The expression \<^verbatim>\<open>1 + 1 + ... + 1\<close> with \<open>k\<close> additions: \<^verbatim>\<open>ast.parse\<close> nests the
  additions to the left, so the tree is \<open>k\<close> \<^verbatim>\<open>BinOp\<close> nodes deep. Each has the
  children \<^verbatim>\<open>left\<close>, \<^verbatim>\<open>op\<close> and \<^verbatim>\<open>right\<close>.
\<close>

abbreviation Constant :: node where "Constant \<equiv> Other []"
abbreviation Add :: node where "Add \<equiv> Other []"
abbreviation BinOp :: "node \<Rightarrow> node \<Rightarrow> node \<Rightarrow> node" where
  "BinOp left op right \<equiv> Other [left, op, right]"

primrec sum_chain :: "nat \<Rightarrow> node" where
  "sum_chain 0 = Constant"
| "sum_chain (Suc k) = BinOp (sum_chain k) Add Constant"

text \<open>
  \<^verbatim>\<open>deep.py\<close>: \<^verbatim>\<open>def foo(): d1()\<close> on line 1 and, on line 2, a sum of 501 terms.
\<close>

definition tree_deep :: node where
  "tree_deep = Module
     [FunctionDef ''foo'' 1 (arguments []) [Expr (Call (Name ''d1'') [] [])] [] None [],
      Expr (sum_chain 500)]"

text \<open>
  The path of a file \<^verbatim>\<open>c.py\<close> in a directory whose name has a character that is
  not ASCII (the byte \<^verbatim>\<open>0xE9\<close>). The parser of the examples rejects the text of the
  file.
\<close>

definition bad_path :: string where
  "bad_path = ''/repo/caf'' @ [CHR 0xE9] @ ''/c.py''"

text \<open>The parser of the two files and of \<^verbatim>\<open>deep.py\<close>.\<close>

definition parse_three :: "string \<Rightarrow> error + node" where
  "parse_three content =
     (if content = ''/repo/deep.py'' then Inr tree_deep else parse_two content)"

section \<open>The effect of a traversal\<close>

lemma inv_iff:
  "inv a \<longleftrightarrow> (\<forall>n. current_function a = Some n \<longrightarrow> n \<in> fst ` set (analyzer.functions a))"
  by (simp add: inv_def split: option.splits)

lemma preorder_list_simps [simp]:
  "preorder_list [] = []"
  "preorder_list (t # ts) = preorder t @ preorder_list ts"
  "preorder_list (xs @ ys) = preorder_list xs @ preorder_list ys"
  by (simp_all add: preorder_list_def)

lemma preorder_unfold: "preorder t = t # preorder_list (iter_child_nodes t)"
  by (simp add: preorder.simps [of t] preorder_list_def)

lemma has_def_Nil [simp]: "has_def [] = False"
  by (simp add: has_def_def)

lemma has_def_Cons: "has_def (t # ts) = (has_def [t] \<or> has_def ts)"
  by (simp add: has_def_def)

lemma has_def_append: "has_def (xs @ ys) = (has_def xs \<or> has_def ys)"
  by (simp add: has_def_def)

lemma has_def_single: "has_def [t] = (is_FunctionDef t \<or> has_def (iter_child_nodes t))"
  by (simp add: has_def_def preorder_unfold [of t])

lemma no_def_filter: "\<not> has_def ts \<Longrightarrow> filter (is_def n) (preorder_list ts) = []"
proof -
  have "is_def n t \<Longrightarrow> is_FunctionDef t" for t by (cases t) auto
  then show "\<not> has_def ts \<Longrightarrow> filter (is_def n) (preorder_list ts) = []"
    by (auto simp: has_def_def filter_empty_conv)
qed

lemma owned_calls_Nil [simp]: "owned_calls [] = []"
  by (simp add: owned_calls_def)

lemma owned_calls_Cons:
  "owned_calls (t # ts) = owned_calls [t] @ (if has_def [t] then [] else owned_calls ts)"
proof (cases "has_def [t]")
  case True
  then obtain x where "x \<in> set (preorder t)" "is_FunctionDef x"
    by (auto simp: has_def_def filter_empty_conv)
  then show ?thesis using True
    by (auto simp: owned_calls_def takeWhile_append)
next
  case False
  then have all: "\<forall>x\<in>set (preorder t). \<not> is_FunctionDef x"
    by (auto simp: has_def_def filter_empty_conv)
  then have tw: "takeWhile (\<lambda>t. \<not> is_FunctionDef t) (preorder t) = preorder t"
    by (simp add: takeWhile_eq_all_conv)
  show ?thesis using False all
    by (simp add: owned_calls_def takeWhile_append tw)
qed

lemma owned_calls_single:
  "owned_calls [t] =
     (if is_FunctionDef t then [] else call_name_of t @ owned_calls (iter_child_nodes t))"
  by (simp add: owned_calls_def preorder_unfold [of t])

lemma add_calls_simps [simp]:
  "add_calls [] r = r"
  "add_calls ys (add_calls xs r) = add_calls (xs @ ys) r"
  by (simp_all add: add_calls_def)

lemma map_option_add_calls [simp]:
  "map_option (add_calls []) x = x"
  "map_option (add_calls ys) (map_option (add_calls xs) x) = map_option (add_calls (xs @ ys)) x"
  by (cases x; simp)+

lemma post_Nil: "post a [] a"
  by (simp add: post_def lookup_after_def)

lemma post_Cons:
  assumes "post a [t] a1" and "post a1 ts a2"
  shows "post a (t # ts) a2"
proof -
  note oc = owned_calls_Cons [of t ts] and hd = has_def_Cons [of t ts]
  have fp: "file_path a1 = file_path a" using assms(1) by (simp add: post_def)
  have m1: "map_of (analyzer.functions a1) n = lookup_after a [t] n" for n
    using assms(1) by (simp add: post_def)
  have look: "lookup_after a1 ts n = lookup_after a (t # ts) n" for n
  proof (cases "has_def [t]")
    case True
    then have c1: "current_function a1 = None" using assms(1) by (simp add: post_def)
    show ?thesis
    proof (cases "filter (is_def n) (preorder_list ts)")
      case Nil
      then show ?thesis using True c1 fp oc m1 [of n]
        by (auto simp: lookup_after_def)
    next
      case (Cons d ds)
      then show ?thesis using fp
        by (simp add: lookup_after_def)
    qed
  next
    case False
    then have c1: "current_function a1 = current_function a"
      using assms(1) by (simp add: post_def)
    note nd = no_def_filter [OF False, of n]
    show ?thesis
    proof (cases "filter (is_def n) (preorder_list ts)")
      case Nil
      then show ?thesis using False c1 fp oc m1 [of n] nd
        by (auto simp: lookup_after_def)
    next
      case (Cons d ds)
      then show ?thesis using fp nd
        by (simp add: lookup_after_def)
    qed
  qed
  show ?thesis using assms look hd by (auto simp: post_def)
qed


lemma is_def_FunctionDef: "is_def n t \<Longrightarrow> is_FunctionDef t"
  by (cases t) auto

lemma post_generic:
  assumes "\<not> is_FunctionDef t" and "call_name_of t = [] \<or> \<not> truthy (current_function a)"
    and "post a (iter_child_nodes t) a'"
  shows "post a [t] a'"
proof -
  have nd: "\<not> is_def n t" for n using assms(1) is_def_FunctionDef by blast
  have "lookup_after a [t] n = lookup_after a (iter_child_nodes t) n" for n
    using assms(1,2) nd [of n]
    by (auto simp: lookup_after_def preorder_unfold [of t] owned_calls_single [of t])
  then show ?thesis using assms
    by (simp add: post_def has_def_single [of t])
qed

lemma post_Call:
  assumes "\<not> is_FunctionDef t" and "call_name_of t = [c]"
    and "current_function a = Some k" and "k \<noteq> []"
    and "map_of (analyzer.functions a) k = Some info"
    and "post (a\<lparr>analyzer.functions :=
                  AList.update k (info\<lparr>calls := calls info @ [c]\<rparr>) (analyzer.functions a)\<rparr>)
              (iter_child_nodes t) a'"
  shows "post a [t] a'"
proof -
  let ?a0 = "a\<lparr>analyzer.functions :=
                  AList.update k (info\<lparr>calls := calls info @ [c]\<rparr>) (analyzer.functions a)\<rparr>"
  have nd: "\<not> is_def n t" for n using assms(1) is_def_FunctionDef by blast
  have "lookup_after ?a0 (iter_child_nodes t) n = lookup_after a [t] n" for n
    using assms(1-5) nd [of n]
    by (auto simp: lookup_after_def preorder_unfold [of t] owned_calls_single [of t]
                   update_conv' add_calls_def)
  then show ?thesis using assms(1,6)
    by (simp add: post_def has_def_single [of t] distinct_update)
qed

lemma post_FunctionDef:
  assumes "t = FunctionDef m l ar b d r tp"
    and "post (a\<lparr>analyzer.functions :=
                  AList.update m \<lparr>name = m, file = basename (file_path a), line = l, calls = []\<rparr>
                    (analyzer.functions a),
                current_function := Some m\<rparr>)
              (iter_child_nodes t) a1"
  shows "post a [t] (a1\<lparr>current_function := None\<rparr>)"
proof -
  let ?a0 = "a\<lparr>analyzer.functions :=
                  AList.update m \<lparr>name = m, file = basename (file_path a), line = l, calls = []\<rparr>
                    (analyzer.functions a),
                current_function := Some m\<rparr>"
  have d: "is_FunctionDef t" "\<And>n. is_def n t = (m = n)"
    "record_of (file_path a) t =
       \<lparr>name = m, file = basename (file_path a), line = l,
        calls = (if m = [] then [] else owned_calls (iter_child_nodes t))\<rparr>"
    using assms(1) by simp_all
  have "lookup_after ?a0 (iter_child_nodes t) n = lookup_after a [t] n" for n
    using d
    by (auto simp: lookup_after_def preorder_unfold [of t] owned_calls_single [of t]
                   update_conv' add_calls_def)
  then show ?thesis using assms(2) d(1)
    by (simp add: post_def has_def_single [of t] distinct_update)
qed

lemma post_inv:
  assumes "inv a" and "post a ts a'"
  shows "inv a'"
  unfolding inv_iff
proof (intro allI impI)
  fix n assume c: "current_function a' = Some n"
  then have nd: "\<not> has_def ts" and ca: "current_function a = Some n"
    using assms(2) by (auto simp: post_def split: if_splits)
  then have "n \<in> fst ` set (analyzer.functions a)"
    using assms(1) by (simp add: inv_iff)
  then have "map_of (analyzer.functions a) n \<noteq> None"
    by (simp add: map_of_eq_None_iff)
  then obtain r where "map_of (analyzer.functions a) n = Some r"
    by auto
  then have "map_of (analyzer.functions a') n \<noteq> None"
    using assms(2) no_def_filter [OF nd, of n] by (simp add: post_def lookup_after_def)
  then show "n \<in> fst ` set (analyzer.functions a')"
    by (simp add: map_of_eq_None_iff)
qed



lemma inv_enter:
  "inv (a\<lparr>analyzer.functions := AList.update m r (analyzer.functions a),
            current_function := Some m\<rparr>)"
  by (simp add: inv_iff dom_update)

lemma inv_append:
  "inv a \<Longrightarrow> inv (a\<lparr>analyzer.functions := AList.update k r (analyzer.functions a)\<rparr>)"
  by (auto simp: inv_iff dom_update)

lemma inv_lookup:
  assumes "inv a" and "truthy (current_function a)"
  obtains k info where "current_function a = Some k" and "k \<noteq> []"
    and "map_of (analyzer.functions a) k = Some info"
proof -
  from assms(2) obtain k where k: "current_function a = Some k" "k \<noteq> []"
    by (cases "current_function a") auto
  then have "k \<in> fst ` set (analyzer.functions a)" using assms(1) by (simp add: inv_iff)
  then have "map_of (analyzer.functions a) k \<noteq> None" by (simp add: map_of_eq_None_iff)
  then show ?thesis using k that by auto
qed
lemma height_unfold: "height t = Suc (height_list (iter_child_nodes t))"
  by (simp add: height.simps [of t] height_list_def)

lemma height_list_simps [simp]:
  "height_list [] = 0"
  "height_list (t # ts) = max (height t) (height_list ts)"
  by (simp_all add: height_list_def)

lemma height_list_append [simp]:
  "height_list (xs @ ys) = max (height_list xs) (height_list ys)"
  by (induction xs) simp_all

lemma step_bound:
  "(x = Inl RecursionError \<and> d - 1 < b) \<or> Q \<Longrightarrow> d \<noteq> 0 \<Longrightarrow>
     (x = Inl RecursionError \<and> d < Suc b) \<or> Q"
  for d :: nat
  by auto

text \<open>
  The visitor raises nothing but \<^verbatim>\<open>RecursionError\<close>, and this only when the depth
  left is less than three times the height of the tree; otherwise it returns the
  analyzer that \<open>post\<close> describes.
\<close>

lemma visit_post_all:
  "inv a \<Longrightarrow> (visit d a t = Inl RecursionError \<and> d < 3 * height t) \<or>
     (\<exists>a'. visit d a t = Inr a' \<and> post a [t] a')"
  "is_FunctionDef t \<Longrightarrow> inv a \<Longrightarrow>
     (visit_FunctionDef d a t = Inl RecursionError \<and>
      d < 2 + 3 * height_list (iter_child_nodes t)) \<or>
     (\<exists>a'. visit_FunctionDef d a t = Inr a' \<and> post a [t] a')"
  "\<not> is_FunctionDef t \<Longrightarrow> inv a \<Longrightarrow>
     (visit_Call d a t = Inl RecursionError \<and>
      d < 2 + 3 * height_list (iter_child_nodes t)) \<or>
     (\<exists>a'. visit_Call d a t = Inr a' \<and> post a [t] a')"
  "inv a \<Longrightarrow>
     (generic_visit d a t = Inl RecursionError \<and>
      d < 1 + 3 * height_list (iter_child_nodes t)) \<or>
     (\<exists>a'. generic_visit d a t = Inr a' \<and> post a (iter_child_nodes t) a')"
  "inv a \<Longrightarrow>
     (visit_nodes d a ts = Inl RecursionError \<and> d < 3 * height_list ts) \<or>
     (\<exists>a'. visit_nodes d a ts = Inr a' \<and> post a ts a')"
proof (induction d a t and d a t and d a t and d a t and d a ts
       rule: visit_visit_FunctionDef_visit_Call_generic_visit_visit_nodes.induct,
       goal_cases)
  case (1 depth self nm lineno args body decorator_list returns type_params)
  let ?t = "FunctionDef nm lineno args body decorator_list returns type_params"
  show ?case
  proof (cases "depth = 0")
    case True
    then show ?thesis by (simp add: height_unfold [of ?t])
  next
    case False
    then have eq: "visit depth self ?t = visit_FunctionDef (depth - 1) self ?t"
      by (simp del: visit_FunctionDef.simps)
    have "is_FunctionDef ?t" by simp
    from step_bound [OF 1(1) [OF False this 1(2)] False]
    show ?thesis unfolding eq height_unfold [of ?t]
      by (auto simp del: visit_FunctionDef.simps iter_child_nodes.simps)
  qed
next
  case (2 depth self func args kws)
  let ?t = "Call func args kws"
  show ?case
  proof (cases "depth = 0")
    case True
    then show ?thesis by (simp add: height_unfold [of ?t])
  next
    case False
    then have eq: "visit depth self ?t = visit_Call (depth - 1) self ?t"
      by simp
    have "\<not> is_FunctionDef ?t" by simp
    from step_bound [OF 2(1) [OF False this 2(2)] False]
    show ?thesis unfolding eq height_unfold [of ?t]
      by (auto simp del: iter_child_nodes.simps)
  qed
next
  case (3 depth self v va vb vc vd ve vf)
  let ?t = "AsyncFunctionDef v va vb vc vd ve vf"
  show ?case
  proof (cases "depth = 0")
    case True
    then show ?thesis by (simp add: height_unfold [of ?t])
  next
    case False
    have p: "post self (iter_child_nodes ?t) a' \<Longrightarrow> post self [?t] a'" for a'
      using post_generic [of ?t self a'] by (simp add: call_name_of_def)
    have eq: "visit depth self ?t = generic_visit (depth - 1) self ?t"
      using False by simp
    from step_bound [OF 3(1) [OF False 3(2)] False]
    show ?thesis unfolding eq height_unfold [of ?t] using p
      by (auto simp del: iter_child_nodes.simps)
  qed
next
  case (4 depth self v)
  let ?t = "Name v"
  show ?case
  proof (cases "depth = 0")
    case True
    then show ?thesis by (simp add: height_unfold [of ?t])
  next
    case False
    have p: "post self (iter_child_nodes ?t) a' \<Longrightarrow> post self [?t] a'" for a'
      using post_generic [of ?t self a'] by (simp add: call_name_of_def)
    have eq: "visit depth self ?t = generic_visit (depth - 1) self ?t"
      using False by simp
    from step_bound [OF 4(1) [OF False 4(2)] False]
    show ?thesis unfolding eq height_unfold [of ?t] using p
      by (auto simp del: iter_child_nodes.simps)
  qed
next
  case (5 depth self v va)
  let ?t = "Attribute v va"
  show ?case
  proof (cases "depth = 0")
    case True
    then show ?thesis by (simp add: height_unfold [of ?t])
  next
    case False
    have p: "post self (iter_child_nodes ?t) a' \<Longrightarrow> post self [?t] a'" for a'
      using post_generic [of ?t self a'] by (simp add: call_name_of_def)
    have eq: "visit depth self ?t = generic_visit (depth - 1) self ?t"
      using False by simp
    from step_bound [OF 5(1) [OF False 5(2)] False]
    show ?thesis unfolding eq height_unfold [of ?t] using p
      by (auto simp del: iter_child_nodes.simps)
  qed
next
  case (6 depth self v)
  let ?t = "Other v"
  show ?case
  proof (cases "depth = 0")
    case True
    then show ?thesis by (simp add: height_unfold [of ?t])
  next
    case False
    have p: "post self (iter_child_nodes ?t) a' \<Longrightarrow> post self [?t] a'" for a'
      using post_generic [of ?t self a'] by (simp add: call_name_of_def)
    have eq: "visit depth self ?t = generic_visit (depth - 1) self ?t"
      using False by simp
    from step_bound [OF 6(1) [OF False 6(2)] False]
    show ?thesis unfolding eq height_unfold [of ?t] using p
      by (auto simp del: iter_child_nodes.simps)
  qed
next
  case (7 depth self func_name lineno args body decorator_list returns type_params)
  let ?t = "FunctionDef func_name lineno args body decorator_list returns type_params"
  let ?a0 = "self\<lparr>analyzer.functions :=
                      AList.update func_name
                        \<lparr>name = func_name, file = basename (file_path self),
                         line = lineno, calls = []\<rparr>
                        (analyzer.functions self),
                    current_function := Some func_name\<rparr>"
  show ?case
  proof (cases "depth = 0")
    case True
    then show ?thesis by simp
  next
    case False
    from 7(1) [OF False inv_enter] consider
      (err) "generic_visit (depth - 1) ?a0 ?t = Inl RecursionError"
            "depth - 1 < 1 + 3 * height_list (iter_child_nodes ?t)"
    | (ok) a1 where "generic_visit (depth - 1) ?a0 ?t = Inr a1"
            "post ?a0 (iter_child_nodes ?t) a1"
      by blast
    then show ?thesis
    proof cases
      case err
      then show ?thesis using False by (simp del: iter_child_nodes.simps)
    next
      case ok
      have "post self [?t] (a1\<lparr>current_function := None\<rparr>)"
        using post_FunctionDef [OF refl ok(2)] .
      then show ?thesis using ok(1) False by simp
    qed
  qed
next
  case (8 depth self node)
  show ?case
  proof (cases "depth = 0")
    case True
    then show ?thesis by (simp add: visit_Call.simps)
  next
    case d: False
    show ?thesis
    proof (cases "truthy (current_function self) \<and> truthy (get_call_name node)")
      case True
      then obtain c where c: "get_call_name node = Some c" "c \<noteq> []"
        by (cases "get_call_name node") auto
      from True obtain k info where k: "current_function self = Some k" "k \<noteq> []"
        "map_of (analyzer.functions self) k = Some info"
        using inv_lookup [OF 8(5)] by blast
      let ?a0 = "self\<lparr>analyzer.functions :=
                        AList.update k (info\<lparr>calls := calls info @ [c]\<rparr>)
                          (analyzer.functions self)\<rparr>"
      have eq: "visit_Call depth self node = generic_visit (depth - 1) ?a0 node"
        using d True k c by (simp add: visit_Call.simps)
      have "(generic_visit (depth - 1) ?a0 node = Inl RecursionError \<and>
             depth - 1 < 1 + 3 * height_list (iter_child_nodes node)) \<or>
            (\<exists>a'. generic_visit (depth - 1) ?a0 node = Inr a' \<and>
                  post ?a0 (iter_child_nodes node) a')"
        using 8(1) [of "get_call_name node" info] d True k c inv_append [OF 8(5)] by simp
      then consider
        (err) "generic_visit (depth - 1) ?a0 node = Inl RecursionError"
              "depth - 1 < 1 + 3 * height_list (iter_child_nodes node)"
      | (ok) a' where "generic_visit (depth - 1) ?a0 node = Inr a'"
              "post ?a0 (iter_child_nodes node) a'"
        by blast
      then show ?thesis
      proof cases
        case err
        then show ?thesis using eq d by simp
      next
        case ok
        have "post self [node] a'"
          using post_Call [OF 8(4) _ k ok(2)] c by (simp add: call_name_of_def)
        then show ?thesis using eq ok(1) by simp
      qed
    next
      case False
      then have cn: "visit_Call depth self node = generic_visit (depth - 1) self node"
        using d by (auto simp: visit_Call.simps Let_def)
      have "(generic_visit (depth - 1) self node = Inl RecursionError \<and>
             depth - 1 < 1 + 3 * height_list (iter_child_nodes node)) \<or>
            (\<exists>a'. generic_visit (depth - 1) self node = Inr a' \<and>
                  post self (iter_child_nodes node) a')"
        using 8(2,3) 8(5) False d by (cases "truthy (current_function self)") auto
      then consider
        (err) "generic_visit (depth - 1) self node = Inl RecursionError"
              "depth - 1 < 1 + 3 * height_list (iter_child_nodes node)"
      | (ok) a' where "generic_visit (depth - 1) self node = Inr a'"
              "post self (iter_child_nodes node) a'"
        by blast
      then show ?thesis
      proof cases
        case err
        then show ?thesis using cn d by simp
      next
        case ok
        have "call_name_of node = [] \<or> \<not> truthy (current_function self)"
          using False by (auto simp: call_name_of_def)
        then have "post self [node] a'"
          using post_generic [OF 8(4) _ ok(2)] by blast
        then show ?thesis using cn ok(1) by simp
      qed
    qed
  qed
next
  case (9 depth self node)
  show ?case
  proof (cases "depth = 0")
    case True
    then show ?thesis by (simp add: generic_visit.simps)
  next
    case False
    then show ?thesis using step_bound [OF 9(1) [OF False 9(2)] False]
      by (simp add: generic_visit.simps)
  qed
next
  case (10 depth self)
  then show ?case by (simp add: post_Nil)
next
  case (11 depth self item items)
  from 11(1) [OF 11(3)] consider
    (err) "visit depth self item = Inl RecursionError" "depth < 3 * height item"
  | (ok) a1 where "visit depth self item = Inr a1" "post self [item] a1"
    by blast
  then show ?case
  proof cases
    case err
    then show ?thesis by simp
  next
    case ok
    from 11(2) [OF ok(1) post_inv [OF 11(3) ok(2)]] consider
      (err2) "visit_nodes depth a1 items = Inl RecursionError" "depth < 3 * height_list items"
    | (ok2) a2 where "visit_nodes depth a1 items = Inr a2" "post a1 items a2"
      by blast
    then show ?thesis
    proof cases
      case err2
      then show ?thesis using ok(1) by simp
    next
      case ok2
      then show ?thesis using ok post_Cons by auto
    qed
  qed
qed simp_all

lemma post_keys:
  assumes "post a ts a'"
  shows "fst ` set (analyzer.functions a) \<subseteq> fst ` set (analyzer.functions a')"
proof
  fix n assume "n \<in> fst ` set (analyzer.functions a)"
  then have "map_of (analyzer.functions a) n \<noteq> None" by (simp add: map_of_eq_None_iff)
  then have "lookup_after a ts n \<noteq> None" by (auto simp: lookup_after_def)
  then have "map_of (analyzer.functions a') n \<noteq> None" using assms by (simp add: post_def)
  then show "n \<in> fst ` set (analyzer.functions a')" by (simp add: map_of_eq_None_iff)
qed

lemma owned_calls_no_def: "\<not> has_def ts \<Longrightarrow> owned_calls ts = calls_preorder ts"
proof -
  assume "\<not> has_def ts"
  then have "\<forall>x\<in>set (preorder_list ts). \<not> is_FunctionDef x"
    by (auto simp: has_def_def filter_empty_conv)
  then have tw: "takeWhile (\<lambda>t. \<not> is_FunctionDef t) (preorder_list ts) = preorder_list ts"
    by (simp add: takeWhile_eq_all_conv)
  show ?thesis by (simp add: owned_calls_def calls_preorder_def tw)
qed

text \<open>With the depth that the height of the tree asks for, the visitor returns.\<close>

lemma visit_returns:
  assumes "inv a" and "3 * height t \<le> d"
  shows "\<exists>a'. visit d a t = Inr a' \<and> post a [t] a'"
  using visit_post_all(1) [OF assms(1), of d t] assms(2) by auto

lemma visit_result:
  assumes "inv a" and "visit d a t = Inr a'"
  shows "post a [t] a'"
  using visit_post_all(1) [OF assms(1), of d t] assms(2) by auto

lemma visit_error:
  assumes "inv a" and "visit d a t = Inl e"
  shows "e = RecursionError \<and> d < 3 * height t"
  using visit_post_all(1) [OF assms(1), of d t] assms(2) by auto


lemma basename_a [simp]: "basename ''/repo/a.py'' = ''a.py''"
  by (simp add: basename_def)

lemma inv_new [simp]: "inv (CallGraphAnalyzer fp)"
  by (simp add: inv_iff CallGraphAnalyzer_def)


text \<open>
  A sum of more than \<open>k\<close> terms needs a depth of more than \<open>2 * k + 1\<close>: each level of
  the tree takes a call of \<open>visit\<close> and one of \<open>generic_visit\<close>.
\<close>

lemma visit_sum_chain:
  "d < 2 * k + 2 \<Longrightarrow> visit d a (sum_chain k) = Inl RecursionError"
proof (induction k arbitrary: d a)
  case 0
  then show ?case by (cases d) (auto simp: generic_visit.simps)
next
  case (Suc k)
  show ?case
  proof (cases "d < 2")
    case True
    then show ?thesis by (cases d) (auto simp: generic_visit.simps)
  next
    case False
    then have "d - 1 - 1 < 2 * k + 2" using Suc.prems by simp
    then have "visit (d - 1 - 1) a (sum_chain k) = Inl RecursionError" by (rule Suc.IH)
    then show ?thesis using False by (simp add: generic_visit.simps)
  qed
qed

section \<open>Nested definitions and calls without an active function\<close>



section \<open>The active function is always a key\<close>

text \<open>
  C8. \<open>inv\<close> says that an active function name is a key of the dictionary. It holds
  of a new analyzer, and from an analyzer where it holds the lookup in \<open>visit_Call\<close>
  finds its key, so that no visitor operation raises \<^verbatim>\<open>KeyError\<close>: each one either
  ends in \<^verbatim>\<open>RecursionError\<close> or returns an analyzer that has every key it had and
  satisfies the invariant, and it does return when the depth is what the height of the
  tree asks for.
\<close>

theorem active_function_is_key:
  assumes "inv a"
  shows "inv (CallGraphAnalyzer fp) \<and>
    (truthy (current_function a) \<longrightarrow>
       map_of (analyzer.functions a) (the (current_function a)) \<noteq> None) \<and>
    (visit_Call depth a (Call func args kws) = Inl RecursionError \<or>
     (\<exists>a'. visit_Call depth a (Call func args kws) = Inr a' \<and> inv a' \<and>
          fst ` set (analyzer.functions a) \<subseteq> fst ` set (analyzer.functions a'))) \<and>
    (visit_FunctionDef depth a (FunctionDef nm l ar b d r tp) = Inl RecursionError \<or>
     (\<exists>a'. visit_FunctionDef depth a (FunctionDef nm l ar b d r tp) = Inr a' \<and> inv a' \<and>
          fst ` set (analyzer.functions a) \<subseteq> fst ` set (analyzer.functions a'))) \<and>
    (generic_visit depth a t = Inl RecursionError \<or>
     (\<exists>a'. generic_visit depth a t = Inr a' \<and> inv a' \<and>
          fst ` set (analyzer.functions a) \<subseteq> fst ` set (analyzer.functions a'))) \<and>
    (visit depth a t = Inl RecursionError \<or>
     (\<exists>a'. visit depth a t = Inr a' \<and> inv a' \<and>
          fst ` set (analyzer.functions a) \<subseteq> fst ` set (analyzer.functions a'))) \<and>
    (visit_nodes depth a ts = Inl RecursionError \<or>
     (\<exists>a'. visit_nodes depth a ts = Inr a' \<and> inv a' \<and>
          fst ` set (analyzer.functions a) \<subseteq> fst ` set (analyzer.functions a'))) \<and>
    (3 * height (Call func args kws) \<le> Suc depth \<longrightarrow>
       (\<exists>a'. visit_Call depth a (Call func args kws) = Inr a' \<and> inv a' \<and>
          fst ` set (analyzer.functions a) \<subseteq> fst ` set (analyzer.functions a'))) \<and>
    (3 * height (FunctionDef nm l ar b d r tp) \<le> Suc depth \<longrightarrow>
       (\<exists>a'. visit_FunctionDef depth a (FunctionDef nm l ar b d r tp) = Inr a' \<and> inv a' \<and>
          fst ` set (analyzer.functions a) \<subseteq> fst ` set (analyzer.functions a'))) \<and>
    (3 * height t \<le> Suc (Suc depth) \<longrightarrow>
       (\<exists>a'. generic_visit depth a t = Inr a' \<and> inv a' \<and>
          fst ` set (analyzer.functions a) \<subseteq> fst ` set (analyzer.functions a'))) \<and>
    (3 * height t \<le> depth \<longrightarrow>
       (\<exists>a'. visit depth a t = Inr a' \<and> inv a' \<and>
          fst ` set (analyzer.functions a) \<subseteq> fst ` set (analyzer.functions a'))) \<and>
    (3 * height_list ts \<le> depth \<longrightarrow>
       (\<exists>a'. visit_nodes depth a ts = Inr a' \<and> inv a' \<and>
          fst ` set (analyzer.functions a) \<subseteq> fst ` set (analyzer.functions a')))"
proof -
  have new: "inv (CallGraphAnalyzer fp)" by simp
  have key: "truthy (current_function a) \<longrightarrow>
       map_of (analyzer.functions a) (the (current_function a)) \<noteq> None"
  proof
    assume "truthy (current_function a)"
    then obtain k info where "current_function a = Some k"
      and "map_of (analyzer.functions a) k = Some info"
      by (rule inv_lookup [OF assms])
    then show "map_of (analyzer.functions a) (the (current_function a)) \<noteq> None" by simp
  qed
  have *: "(x = Inl RecursionError \<and> depth < bnd) \<or> (\<exists>a'. x = Inr a' \<and> post a us a') \<Longrightarrow>
      (x = Inl RecursionError \<or>
       (\<exists>a'. x = Inr a' \<and> inv a' \<and>
          fst ` set (analyzer.functions a) \<subseteq> fst ` set (analyzer.functions a'))) \<and>
      (bnd \<le> depth \<longrightarrow>
       (\<exists>a'. x = Inr a' \<and> inv a' \<and>
          fst ` set (analyzer.functions a) \<subseteq> fst ` set (analyzer.functions a')))"
    for x us bnd
  proof (elim disjE conjE exE)
    assume "x = Inl RecursionError" and "depth < bnd"
    then show ?thesis by simp
  next
    fix a' assume "x = Inr a'" and p: "post a us a'"
    then show ?thesis using post_inv [OF assms p] post_keys [OF p] by simp
  qed
  let ?c = "Call func args kws" and ?f = "FunctionDef nm l ar b d r tp"
  have bc: "2 + 3 * height_list (iter_child_nodes ?c) \<le> depth \<longleftrightarrow> 3 * height ?c \<le> Suc depth"
    and bf: "2 + 3 * height_list (iter_child_nodes ?f) \<le> depth \<longleftrightarrow> 3 * height ?f \<le> Suc depth"
    and bg: "1 + 3 * height_list (iter_child_nodes t) \<le> depth \<longleftrightarrow> 3 * height t \<le> Suc (Suc depth)"
    by (auto simp: height_unfold [of ?c] height_unfold [of ?f] height_unfold [of t]
             simp del: iter_child_nodes.simps)
  have "\<not> is_FunctionDef ?c" and "is_FunctionDef ?f" by simp_all
  note c = * [OF visit_post_all(3) [OF \<open>\<not> is_FunctionDef ?c\<close> assms, of depth], unfolded bc]
    and f = * [OF visit_post_all(2) [OF \<open>is_FunctionDef ?f\<close> assms, of depth], unfolded bf]
    and g = * [OF visit_post_all(4) [OF assms, of depth t], unfolded bg]
    and v = * [OF visit_post_all(1) [OF assms, of depth t]]
    and n = * [OF visit_post_all(5) [OF assms, of depth ts]]
  show ?thesis
    using new key c f g v n by (intro conjI) blast+
qed

theorem active_function_is_key_witness:
  "inv active_example \<and>
   map_of (analyzer.functions active_example) (the (current_function active_example)) \<noteq> None \<and>
   3 * height (Call (Name ''g'') [] []) \<le> Suc 1000 \<and>
   (\<exists>a'. visit_Call 1000 active_example (Call (Name ''g'') [] []) = Inr a' \<and> inv a')"
proof -
  have i: "inv active_example" by (simp add: inv_iff active_example_def)
  have t: "truthy (current_function active_example)" by (simp add: active_example_def)
  have b: "3 * height (Call (Name ''g'') [] []) \<le> Suc 1000" by (simp add: height.simps)
  have k: "truthy (current_function active_example) \<longrightarrow>
       map_of (analyzer.functions active_example) (the (current_function active_example)) \<noteq> None"
    and v: "3 * height (Call (Name ''g'') [] []) \<le> Suc 1000 \<longrightarrow>
       (\<exists>a'. visit_Call 1000 active_example (Call (Name ''g'') [] []) = Inr a' \<and> inv a' \<and>
          fst ` set (analyzer.functions active_example) \<subseteq> fst ` set (analyzer.functions a'))"
    using active_function_is_key [OF i, of "''/repo/a.py''" 1000 "Name ''g''" "[]" "[]"]
    by simp_all
  from v b obtain a' where
    "visit_Call 1000 active_example (Call (Name ''g'') [] []) = Inr a'" "inv a'"
    by blast
  then show ?thesis using i t k b by blast
qed

lemma visit_def_no_nested:
  assumes "inv a" and "nm \<noteq> []"
    and "\<not> has_def (iter_child_nodes (FunctionDef nm l ar b d r tp))"
    and "visit depth a (FunctionDef nm l ar b d r tp) = Inr a'"
  shows "map_of (analyzer.functions a') nm =
       Some \<lparr>name = nm, file = basename (file_path a), line = l,
             calls = calls_preorder (iter_child_nodes (FunctionDef nm l ar b d r tp))\<rparr>"
proof -
  let ?t = "FunctionDef nm l ar b d r tp"
  have p: "post a [?t] a'"
    using visit_result [OF assms(1,4)] .
  have f: "filter (is_def nm) (preorder_list [?t]) = [?t]"
    using no_def_filter [OF assms(3), of nm] by (simp add: preorder_unfold [of ?t])
  have "map_of (analyzer.functions a') nm = Some (record_of (file_path a) ?t)"
    using p f by (simp add: post_def lookup_after_def)
  then show ?thesis using assms(2) owned_calls_no_def [OF assms(3)] by simp
qed

section \<open>Resolving the name of a call\<close>

text \<open>
  C3. With an active function \<open>k\<close> whose record is in the dictionary, the call visitor
  appends the identifier of a call of a bare name, appends the attribute name of a call
  of a member access (whatever the receiver is), and appends nothing for any other
  target; in each case it then goes on into the children of the call. A definition
  without nested definitions ends with the names of all its calls in pre-order
  (the visit returns when the depth is what the height of the definition asks for, and
  raises nothing but \<^verbatim>\<open>RecursionError\<close> otherwise), and \<^verbatim>\<open>def a(): b(); c.d()\<close> has the
  calls \<open>[b, d]\<close>.
\<close>

theorem callee_name_rule:
  assumes "current_function a = Some k" and "k \<noteq> []"
    and "map_of (analyzer.functions a) k = Some info"
  shows
    "(f \<noteq> [] \<longrightarrow>
        visit_Call (Suc depth) a (Call (Name f) args kws) =
          generic_visit depth (append_call a f) (Call (Name f) args kws) \<and>
        map_of (analyzer.functions (append_call a f)) k =
          Some (info\<lparr>calls := calls info @ [f]\<rparr>)) \<and>
     (m \<noteq> [] \<longrightarrow>
        visit_Call (Suc depth) a (Call (Attribute obj m) args kws) =
          generic_visit depth (append_call a m) (Call (Attribute obj m) args kws) \<and>
        map_of (analyzer.functions (append_call a m)) k =
          Some (info\<lparr>calls := calls info @ [m]\<rparr>)) \<and>
     ((\<forall>i. func \<noteq> Name i) \<and> (\<forall>v i. func \<noteq> Attribute v i) \<longrightarrow>
        visit_Call (Suc depth) a (Call func args kws) =
          generic_visit depth a (Call func args kws)) \<and>
     (nm \<noteq> [] \<and> \<not> has_def (iter_child_nodes (FunctionDef nm l ar b d r tp)) \<longrightarrow>
        (visit depth a (FunctionDef nm l ar b d r tp) = Inl RecursionError \<or>
         (\<exists>a'. visit depth a (FunctionDef nm l ar b d r tp) = Inr a' \<and>
            map_of (analyzer.functions a') nm =
              Some \<lparr>name = nm, file = basename (file_path a), line = l,
                    calls = calls_preorder
                      (iter_child_nodes (FunctionDef nm l ar b d r tp))\<rparr>)) \<and>
        (3 * height (FunctionDef nm l ar b d r tp) \<le> depth \<longrightarrow>
         (\<exists>a'. visit depth a (FunctionDef nm l ar b d r tp) = Inr a' \<and>
            map_of (analyzer.functions a') nm =
              Some \<lparr>name = nm, file = basename (file_path a), line = l,
                    calls = calls_preorder
                      (iter_child_nodes (FunctionDef nm l ar b d r tp))\<rparr>))) \<and>
     analyze_file stdout_ok 1000 (\<lambda>c. Inr two_calls_example) (\<lambda>p. Inr ''src'') ''/repo/a.py'' =
       Inr ([(''a'', \<lparr>name = ''a'', file = ''a.py'', line = 1, calls = [''b'', ''d'']\<rparr>)], [])"
proof (intro conjI impI)
  assume "f \<noteq> []"
  then show "visit_Call (Suc depth) a (Call (Name f) args kws) =
          generic_visit depth (append_call a f) (Call (Name f) args kws)"
    using assms by (simp add: visit_Call.simps append_call_def)
  show "map_of (analyzer.functions (append_call a f)) k =
          Some (info\<lparr>calls := calls info @ [f]\<rparr>)"
    using assms by (simp add: append_call_def update_conv')
next
  assume "m \<noteq> []"
  then show "visit_Call (Suc depth) a (Call (Attribute obj m) args kws) =
          generic_visit depth (append_call a m) (Call (Attribute obj m) args kws)"
    using assms by (simp add: visit_Call.simps append_call_def)
  show "map_of (analyzer.functions (append_call a m)) k =
          Some (info\<lparr>calls := calls info @ [m]\<rparr>)"
    using assms by (simp add: append_call_def update_conv')
next
  assume "(\<forall>i. func \<noteq> Name i) \<and> (\<forall>v i. func \<noteq> Attribute v i)"
  then have "get_call_name (Call func args kws) = None"
    by (cases func) simp_all
  then show "visit_Call (Suc depth) a (Call func args kws) =
      generic_visit depth a (Call func args kws)"
    by (simp add: visit_Call.simps)
next
  let ?t = "FunctionDef nm l ar b d r tp"
  let ?r = "\<lparr>name = nm, file = basename (file_path a), line = l,
             calls = calls_preorder (iter_child_nodes ?t)\<rparr>"
  have i: "inv a" using assms
    by (auto simp: inv_iff dest: map_of_SomeD intro: rev_image_eqI)
  assume h: "nm \<noteq> [] \<and> \<not> has_def (iter_child_nodes ?t)"
  have r: "visit depth a ?t = Inr a' \<Longrightarrow> map_of (analyzer.functions a') nm = Some ?r" for a'
    using visit_def_no_nested [OF i, of nm l ar b d r tp depth a'] h by blast
  show "visit depth a ?t = Inl RecursionError \<or>
     (\<exists>a'. visit depth a ?t = Inr a' \<and> map_of (analyzer.functions a') nm = Some ?r)"
    using visit_post_all(1) [OF i, of depth ?t] r by blast
  assume "3 * height ?t \<le> depth"
  then obtain a' where "visit depth a ?t = Inr a'"
    using visit_returns [OF i] by blast
  then show "\<exists>a'. visit depth a ?t = Inr a' \<and> map_of (analyzer.functions a') nm = Some ?r"
    using r by blast
next
  show "analyze_file stdout_ok 1000 (\<lambda>c. Inr two_calls_example) (\<lambda>p. Inr ''src'')
      ''/repo/a.py'' =
       Inr ([(''a'', \<lparr>name = ''a'', file = ''a.py'', line = 1, calls = [''b'', ''d'']\<rparr>)], [])"
    by (simp add: analyze_file_def analyze_file_try_def two_calls_example_def
        CallGraphAnalyzer_def visit_Call.simps generic_visit.simps)
qed

theorem callee_name_rule_witness:
  "current_function active_example = Some ''f'' \<and>
   map_of (analyzer.functions active_example) ''f'' =
     Some \<lparr>name = ''f'', file = ''a.py'', line = 1, calls = []\<rparr> \<and>
   visit_Call (Suc 1000) active_example (Call (Name ''b'') [] []) =
     generic_visit 1000 (append_call active_example ''b'') (Call (Name ''b'') [] []) \<and>
   map_of (analyzer.functions (append_call active_example ''b'')) ''f'' =
     Some \<lparr>name = ''f'', file = ''a.py'', line = 1, calls = [''b'']\<rparr> \<and>
   visit_Call (Suc 1000) active_example (Call (Attribute (Name ''c'') ''d'') [] []) =
     generic_visit 1000 (append_call active_example ''d'')
       (Call (Attribute (Name ''c'') ''d'') [] []) \<and>
   visit_Call (Suc 1000) active_example (Call (Call (Name ''h'') [] []) [] []) =
     generic_visit 1000 active_example (Call (Call (Name ''h'') [] []) [] []) \<and>
   3 * height (FunctionDef ''a'' 1 (arguments [])
              [Expr (Call (Name ''b'') [] []),
               Expr (Call (Attribute (Name ''c'') ''d'') [] [])] [] None []) \<le> (1000::nat) \<and>
   (\<exists>a'. visit 1000 active_example
           (FunctionDef ''a'' 1 (arguments [])
              [Expr (Call (Name ''b'') [] []),
               Expr (Call (Attribute (Name ''c'') ''d'') [] [])] [] None []) = Inr a' \<and>
         map_of (analyzer.functions a') ''a'' =
           Some \<lparr>name = ''a'', file = ''a.py'', line = 1, calls = [''b'', ''d'']\<rparr>)"
proof -
  have c: "current_function active_example = Some ''f''"
    and m: "map_of (analyzer.functions active_example) ''f'' =
     Some \<lparr>name = ''f'', file = ''a.py'', line = 1, calls = []\<rparr>"
    by (simp_all add: active_example_def)
  have n: "''f'' \<noteq> []" by simp
  have h: "\<not> has_def (iter_child_nodes (FunctionDef ''a'' 1 (arguments [])
              [Expr (Call (Name ''b'') [] []),
               Expr (Call (Attribute (Name ''c'') ''d'') [] [])] [] None []))"
    by (simp add: has_def_def preorder.simps)
  have cp: "calls_preorder [arguments [], Expr (Call (Name ''b'') [] []),
               Expr (Call (Attribute (Name ''c'') ''d'') [] [])] = [''b'', ''d'']"
    by (simp add: calls_preorder_def preorder.simps call_name_of_def)
  have fp: "basename (file_path active_example) = ''a.py''"
    by (simp add: active_example_def)
  have b: "3 * height (FunctionDef ''a'' 1 (arguments [])
              [Expr (Call (Name ''b'') [] []),
               Expr (Call (Attribute (Name ''c'') ''d'') [] [])] [] None []) \<le> (1000::nat)"
    by (simp add: height.simps)
  note T = callee_name_rule [OF c n m, where f = "''b''" and args = "[]" and kws = "[]"
      and m = "''d''" and obj = "Name ''c''" and func = "Call (Name ''h'') [] []"
      and nm = "''a''" and l = 1 and ar = "arguments []"
      and b = "[Expr (Call (Name ''b'') [] []), Expr (Call (Attribute (Name ''c'') ''d'') [] [])]"
      and d = "[]" and r = None and tp = "[]" and depth = 1000]
  show ?thesis using c m h b T by (simp add: cp fp)
qed


section \<open>Calls in decorators and default values\<close>




section \<open>The result of a file\<close>

lemma analyzed_tree_Some:
  assumes "analyzed_tree limit parse read_text fp = Some tree"
  shows "\<exists>content a'. read_text fp = Inr content \<and> parse content = Inr tree \<and>
     visit limit (CallGraphAnalyzer fp) tree = Inr a' \<and>
     analyze_file_try limit parse read_text fp = Inr (analyzer.functions a') \<and>
     post (CallGraphAnalyzer fp) [tree] a'"
proof -
  from assms obtain content a' where
    r: "read_text fp = Inr content" "parse content = Inr tree"
    "visit limit (CallGraphAnalyzer fp) tree = Inr a'"
    by (auto simp: analyzed_tree_def split: sum.splits)
  have "post (CallGraphAnalyzer fp) [tree] a'"
    using visit_result [OF inv_new r(3)] .
  then show ?thesis using r by (simp add: analyze_file_try_def)
qed

lemma analyzed_tree_None:
  assumes "analyzed_tree limit parse read_text fp = None"
  shows "\<exists>e. analyze_file_try limit parse read_text fp = Inl e"
  using assms by (auto simp: analyzed_tree_def analyze_file_try_def split: sum.splits)

lemma analyzed_tree_enough:
  assumes "read_text fp = Inr content" and "parse content = Inr tree"
    and "3 * height tree \<le> limit"
  shows "analyzed_tree limit parse read_text fp = Some tree"
proof -
  obtain a' where "visit limit (CallGraphAnalyzer fp) tree = Inr a'"
    using visit_returns [OF inv_new assms(3)] by blast
  then show ?thesis using assms(1,2) by (simp add: analyzed_tree_def)
qed

lemma file_result_lookup:
  "map_of (file_result limit parse read_text fp) n =
     (case analyzed_tree limit parse read_text fp of
        None \<Rightarrow> None
      | Some tree \<Rightarrow>
          if filter (is_def n) (preorder tree) = [] then None
          else Some (record_of fp (last (filter (is_def n) (preorder tree)))))"
proof (cases "analyzed_tree limit parse read_text fp")
  case None
  then show ?thesis using analyzed_tree_None [OF None]
    by (auto simp: file_result_def)
next
  case (Some tree)
  from analyzed_tree_Some [OF Some] obtain a' where
    "analyze_file_try limit parse read_text fp = Inr (analyzer.functions a')"
    "post (CallGraphAnalyzer fp) [tree] a'" by blast
  then show ?thesis using Some
    by (simp add: file_result_def post_def lookup_after_def CallGraphAnalyzer_def)
qed

lemma file_result_distinct: "distinct (map fst (file_result limit parse read_text fp))"
proof (cases "analyzed_tree limit parse read_text fp")
  case None
  then show ?thesis using analyzed_tree_None [OF None]
    by (auto simp: file_result_def)
next
  case (Some tree)
  from analyzed_tree_Some [OF Some] obtain a' where
    "analyze_file_try limit parse read_text fp = Inr (analyzer.functions a')"
    "post (CallGraphAnalyzer fp) [tree] a'" by blast
  then show ?thesis
    by (simp add: file_result_def post_def CallGraphAnalyzer_def)
qed

text \<open>
  \<open>analyze_file\<close> returns unless the line of its handler is not written; what it
  returns is \<open>file_result\<close>, and what it prints is \<open>diagnostics\<close>.
\<close>

lemma analyze_file_eq:
  "analyze_file stdout limit parse read_text fp =
     (case raised stdout (diagnostics limit parse read_text fp) of
        Some e \<Rightarrow> Inl e
      | None \<Rightarrow> Inr (file_result limit parse read_text fp,
                     diagnostics limit parse read_text fp))"
  by (simp add: analyze_file_def diagnostics_def file_result_def
      split: sum.splits option.splits)

lemma analyze_file_result:
  assumes "analyze_file stdout limit parse read_text fp = Inr (funcs, printed)"
  shows "funcs = file_result limit parse read_text fp"
    and "printed = diagnostics limit parse read_text fp"
  using assms by (auto simp: analyze_file_eq split: option.splits)

lemma last_filter_is_def:
  assumes "filter (is_def n) xs \<noteq> []"
  obtains l ar b d r tp where "last (filter (is_def n) xs) = FunctionDef n l ar b d r tp"
proof -
  have "last (filter (is_def n) xs) \<in> set (filter (is_def n) xs)"
    using assms by (rule last_in_set)
  then have "is_def n (last (filter (is_def n) xs))" by simp
  then show ?thesis using that by (cases "last (filter (is_def n) xs)") auto
qed

section \<open>Merging the files and building the report\<close>

lemma dict_update_simps [simp]:
  "dict_update d [] = d"
  "dict_update d ((k, v) # other) = dict_update (AList.update k v d) other"
  by (simp_all add: dict_update_def)

lemma map_of_dict_update:
  "distinct (map fst other) \<Longrightarrow>
   map_of (dict_update d other) k =
     (case map_of other k of Some v \<Rightarrow> Some v | None \<Rightarrow> map_of d k)"
proof (induction other arbitrary: d)
  case Nil
  then show ?case by simp
next
  case (Cons p other)
  obtain k' v' where p: "p = (k', v')" by (cases p)
  have "k' \<notin> fst ` set other" using Cons.prems p by auto
  then have n: "map_of other k' = None" by (simp add: map_of_eq_None_iff)
  show ?case using Cons p n by (auto simp: update_conv' split: option.splits)
qed

lemma distinct_dict_update:
  "distinct (map fst d) \<Longrightarrow> distinct (map fst (dict_update d other))"
proof (induction other arbitrary: d)
  case Nil
  then show ?case by simp
next
  case (Cons p other)
  then show ?case by (cases p) (simp add: distinct_update)
qed

lemma keys_dict_update:
  "distinct (map fst other) \<Longrightarrow>
   map fst (dict_update d other) =
     map fst d @ filter (\<lambda>k. k \<notin> fst ` set d) (map fst other)"
proof (induction other arbitrary: d)
  case Nil
  then show ?case by simp
next
  case (Cons p other)
  obtain k v where p: "p = (k, v)" by (cases p)
  have d: "distinct (map fst other)" and nk: "k \<notin> set (map fst other)"
    using Cons.prems p by auto
  have ih: "map fst (dict_update (AList.update k v d) other) =
     map fst (AList.update k v d) @
     filter (\<lambda>x. x \<notin> fst ` set (AList.update k v d)) (map fst other)"
    by (rule Cons.IH [OF d])
  have f: "filter (\<lambda>x. x \<noteq> k \<and> x \<notin> fst ` set d) (map fst other) =
           filter (\<lambda>x. x \<notin> fst ` set d) (map fst other)"
    using nk by (intro filter_cong) auto
  show ?case
  proof (cases "k \<in> fst ` set d")
    case True
    then have "insert k (fst ` set d) = fst ` set d" by auto
    then show ?thesis using ih p True by (simp add: update_keys dom_update)
  next
    case False
    then show ?thesis using ih p f by (simp add: update_keys dom_update)
  qed
qed


lemma raised_append:
  "raised stdout (xs @ ys) =
     (case raised stdout xs of Some e \<Rightarrow> Some e | None \<Rightarrow> raised stdout ys)"
  by (induction xs) (simp_all split: option.splits)

lemma raised_None: "raised stdout ms = None \<longleftrightarrow> (\<forall>m\<in>set ms. stdout m = None)"
  by (induction ms) (auto split: option.splits)

lemma run_output_simps [simp]:
  "run_output limit parse read_text [] = []"
  "run_output limit parse read_text (fp # fps) =
     Analyzing (basename fp) # diagnostics limit parse read_text fp @
     run_output limit parse read_text fps"
  "run_output limit parse read_text (xs @ ys) =
     run_output limit parse read_text xs @ run_output limit parse read_text ys"
  by (simp_all add: run_output_def)

lemma merged_simps [simp]:
  "merged limit parse read_text [] all_functions = all_functions"
  "merged limit parse read_text (fp # fps) all_functions =
     merged limit parse read_text fps
       (dict_update all_functions (file_result limit parse read_text fp))"
  "merged limit parse read_text (xs @ ys) all_functions =
     merged limit parse read_text ys (merged limit parse read_text xs all_functions)"
  by (simp_all add: merged_def)

text \<open>
  The loop returns unless a line is not written; what it returns is the registry
  with the results of the files merged into it, and the lines of the files after the
  lines that were there.
\<close>

lemma analyze_files_eq:
  "analyze_files stdout limit parse read_text fps (all_functions, out) =
     (case raised stdout (run_output limit parse read_text fps) of
        Some e \<Rightarrow> Inl e
      | None \<Rightarrow> Inr (merged limit parse read_text fps all_functions,
                     out @ run_output limit parse read_text fps))"
proof (induction fps arbitrary: all_functions out)
  case Nil
  then show ?case by simp
next
  case (Cons fp fps)
  show ?case
    by (simp add: Cons.IH analyze_file_eq raised_append split: option.splits)
qed

lemma merged_distinct:
  "distinct (map fst all_functions) \<Longrightarrow>
   distinct (map fst (merged limit parse read_text fps all_functions))"
  by (induction fps arbitrary: all_functions) (simp_all add: distinct_dict_update)

lemma merged_prefix:
  "take (length all_functions)
     (map fst (merged limit parse read_text fps all_functions)) = map fst all_functions"
proof (induction fps arbitrary: all_functions)
  case Nil
  then show ?case by simp
next
  case (Cons fp fps)
  let ?new = "dict_update all_functions (file_result limit parse read_text fp)"
  have k: "map fst ?new = map fst all_functions @
      filter (\<lambda>k. k \<notin> fst ` set all_functions)
        (map fst (file_result limit parse read_text fp))"
    by (rule keys_dict_update [OF file_result_distinct])
  then have le: "length all_functions \<le> length ?new"
    by (metis length_append length_map le_add1)
  have "take (length all_functions)
          (take (length ?new)
             (map fst (merged limit parse read_text fps ?new))) =
        take (length all_functions) (map fst ?new)"
    by (simp only: Cons.IH)
  then show ?case using le k by (simp add: min_def)
qed

lemma fold_append_one: "fold (\<lambda>c rels. rels @ [g c]) cs rels = rels @ map g cs"
  by (induction cs arbitrary: rels) simp_all

lemma fold_append_many: "fold (\<lambda>x rels. rels @ g x) xs rels = rels @ concat (map g xs)"
  by (induction xs arbitrary: rels) simp_all

lemma create_call_relationships_eq:
  "create_call_relationships all_functions = concat (map relationships_of all_functions)"
proof -
  have "(\<lambda>(func_name, func_info) rels.
             fold (\<lambda>called_func rels.
                     rels @ [\<lparr>caller = func_name, callee = called_func,
                              caller_file = file func_info\<rparr>])
                  (calls func_info) rels) =
        (\<lambda>x rels. rels @ relationships_of x)"
    by (auto simp: fun_eq_iff fold_append_one relationships_of_def)
  then show ?thesis
    by (simp add: create_call_relationships_def fold_append_many)
qed


text \<open>
  The run returns unless a line is not written; what it returns is the report of the
  merged registry.
\<close>

lemma generate_call_graph_eq:
  "generate_call_graph stdout limit parse read_text repo_url python_files =
     (case raised stdout (Found (length python_files) #
                          run_output limit parse read_text python_files) of
        Some e \<Rightarrow> Inl e
      | None \<Rightarrow>
          Inr (report_of repo_url (merged limit parse read_text python_files []),
               Found (length python_files) # run_output limit parse read_text python_files))"
  by (simp add: generate_call_graph_def analyze_files_eq report_of_def
      create_call_relationships_eq split: option.splits)

lemma generate_call_graph_result:
  assumes "generate_call_graph stdout limit parse read_text repo_url python_files =
      Inr (cg, out)"
  shows "cg = report_of repo_url (merged limit parse read_text python_files [])"
    and "out = Found (length python_files) # run_output limit parse read_text python_files"
  using assms by (auto simp: generate_call_graph_eq split: option.splits)

lemma generate_call_graph_returns:
  assumes "\<And>m. stdout m = None"
  shows "generate_call_graph stdout limit parse read_text repo_url python_files =
      Inr (report_of repo_url (merged limit parse read_text python_files []),
           Found (length python_files) # run_output limit parse read_text python_files)"
proof -
  have "raised stdout (Found (length python_files) #
      run_output limit parse read_text python_files) = None"
    unfolding raised_None using assms by simp
  then show ?thesis by (simp only: generate_call_graph_eq option.case)
qed

lemma basename_simps [simp]:
  "basename ''/repo/b.py'' = ''b.py''"
  "basename ''/repo/deep.py'' = ''deep.py''"
  by (simp_all add: basename_def)

lemma visit_tree_a:
  "visit 1000 (CallGraphAnalyzer ''/repo/a.py'') tree_a =
     Inr \<lparr>file_path = ''/repo/a.py'',
          analyzer.functions =
            [(''foo'', \<lparr>name = ''foo'', file = ''a.py'', line = 1, calls = [''a1'']\<rparr>),
             (''bar'', \<lparr>name = ''bar'', file = ''a.py'', line = 3, calls = [''b1'']\<rparr>)],
          current_function = None\<rparr>"
  by (simp add: tree_a_def CallGraphAnalyzer_def visit_Call.simps generic_visit.simps)

lemma visit_tree_b:
  "visit 1000 (CallGraphAnalyzer ''/repo/b.py'') tree_b =
     Inr \<lparr>file_path = ''/repo/b.py'',
          analyzer.functions =
            [(''foo'', \<lparr>name = ''foo'', file = ''b.py'', line = 7, calls = [''c1'']\<rparr>)],
          current_function = None\<rparr>"
  by (simp add: tree_b_def CallGraphAnalyzer_def visit_Call.simps generic_visit.simps)

lemma visit_tree_deep:
  "visit 1000 (CallGraphAnalyzer ''/repo/deep.py'') tree_deep = Inl RecursionError"
  by (simp add: tree_deep_def CallGraphAnalyzer_def visit_Call.simps generic_visit.simps
      visit_sum_chain)

lemma try_two [simp]:
  "analyze_file_try 1000 parse_two read_two ''/repo/a.py'' =
     Inr [(''foo'', \<lparr>name = ''foo'', file = ''a.py'', line = 1, calls = [''a1'']\<rparr>),
          (''bar'', \<lparr>name = ''bar'', file = ''a.py'', line = 3, calls = [''b1'']\<rparr>)]"
  "analyze_file_try 1000 parse_two read_two ''/repo/b.py'' =
     Inr [(''foo'', \<lparr>name = ''foo'', file = ''b.py'', line = 7, calls = [''c1'']\<rparr>)]"
  by (simp_all add: analyze_file_try_def parse_two_def read_two_def visit_tree_a visit_tree_b)

lemma try_three [simp]:
  "analyze_file_try 1000 parse_three read_two ''/repo/a.py'' =
     Inr [(''foo'', \<lparr>name = ''foo'', file = ''a.py'', line = 1, calls = [''a1'']\<rparr>),
          (''bar'', \<lparr>name = ''bar'', file = ''a.py'', line = 3, calls = [''b1'']\<rparr>)]"
  "analyze_file_try 1000 parse_three read_two ''/repo/deep.py'' = Inl RecursionError"
  by (simp_all add: analyze_file_try_def parse_three_def parse_two_def read_two_def
      visit_tree_a visit_tree_deep)

lemma two_files_report:
  "generate_call_graph stdout_ok 1000 parse_two read_two ''url''
     [''/repo/a.py'', ''/repo/b.py''] =
     Inr (\<lparr>repository = ''url'', total_functions = 2,
           functions =
             [(''foo'', \<lparr>name = ''foo'', file = ''b.py'', line = 7, calls = [''c1'']\<rparr>),
              (''bar'', \<lparr>name = ''bar'', file = ''a.py'', line = 3, calls = [''b1'']\<rparr>)],
           call_relationships =
             [\<lparr>caller = ''foo'', callee = ''c1'', caller_file = ''b.py''\<rparr>,
              \<lparr>caller = ''bar'', callee = ''b1'', caller_file = ''a.py''\<rparr>]\<rparr>,
          [Found 2, Analyzing ''a.py'', Analyzing ''b.py''])"
  by (simp add: generate_call_graph_def analyze_file_def stdout_ok_def
      create_call_relationships_def)

section \<open>Which definitions get a record\<close>

text \<open>
  C4 as stated fails: of two definitions of \<open>f\<close> in one file the record has the line
  of the second only, since a later definition of a name replaces the record of the
  earlier one; and a file that was parsed, but whose tree is too deep for the visitor,
  has the empty result, since the handler in \<open>analyze_file\<close> treats the
  \<^verbatim>\<open>RecursionError\<close> of the visit like a failure to parse. The file \<^verbatim>\<open>deep.py\<close>
  defines \<open>foo\<close> at module level.
\<close>

theorem earlier_definition_has_no_record:
  "analyze_file stdout_ok 1000 (\<lambda>c. Inr redefined_example) (\<lambda>p. Inr ''src'') ''/repo/a.py'' =
     Inr ([(''f'', \<lparr>name = ''f'', file = ''a.py'', line = 4, calls = [''a2'']\<rparr>)], []) \<and>
   FunctionDef ''f'' 1 (arguments []) [Expr (Call (Name ''a1'') [] [])] [] None []
     \<in> set (iter_child_nodes redefined_example) \<and>
   read_two ''/repo/deep.py'' = Inr ''/repo/deep.py'' \<and>
   parse_three ''/repo/deep.py'' = Inr tree_deep \<and>
   FunctionDef ''foo'' 1 (arguments []) [Expr (Call (Name ''d1'') [] [])] [] None []
     \<in> set (iter_child_nodes tree_deep) \<and>
   analyze_file stdout_ok 1000 parse_three read_two ''/repo/deep.py'' =
     Inr ([], [ErrorAnalyzing ''/repo/deep.py'' RecursionError])"
  by (simp add: analyze_file_def analyze_file_try_def redefined_example_def tree_deep_def
      CallGraphAnalyzer_def visit_Call.simps generic_visit.simps visit_sum_chain
      read_two_def parse_three_def stdout_ok_def)

text \<open>
  C4, amended. Take a file that is read and parsed. When the limit is what the height
  of its tree asks for, its analysis completes: \<open>analyze_file\<close> returns a dictionary
  and prints nothing. Whenever the analysis completes, every \<^verbatim>\<open>def\<close> node of the
  tree, wherever it stands, has its name as a key of the dictionary, and the record of
  the name carries the name, the base name of the file, and the line of the last
  definition of that name in pre-order: the line of the definition itself when the
  name is defined once.
\<close>

theorem every_def_is_registered:
  assumes "read_text fp = Inr content" and "parse content = Inr tree"
  shows
    "(3 * height tree \<le> limit \<longrightarrow>
        (\<exists>funcs. analyze_file stdout limit parse read_text fp = Inr (funcs, []))) \<and>
     (analyze_file stdout limit parse read_text fp = Inr (funcs, []) \<longrightarrow>
      FunctionDef nm l ar b d r tp \<in> set (preorder tree) \<longrightarrow>
        (\<exists>info. map_of funcs nm = Some info \<and>
           name info = nm \<and> file info = basename fp \<and>
           line info = def_line (last (filter (is_def nm) (preorder tree))) \<and>
           (filter (is_def nm) (preorder tree) = [FunctionDef nm l ar b d r tp] \<longrightarrow>
              line info = l)))"
proof (intro conjI impI)
  assume "3 * height tree \<le> limit"
  then have "analyzed_tree limit parse read_text fp = Some tree"
    using analyzed_tree_enough [where read_text = read_text and parse = parse and fp = fp,
        OF assms] by simp
  from analyzed_tree_Some [OF this] obtain a' :: analyzer where
    "analyze_file_try limit parse read_text fp = Inr (analyzer.functions a')" by blast
  then show "\<exists>funcs. analyze_file stdout limit parse read_text fp = Inr (funcs, [])"
    by (simp add: analyze_file_def)
next
  assume r: "analyze_file stdout limit parse read_text fp = Inr (funcs, [])"
    and m: "FunctionDef nm l ar b d r tp \<in> set (preorder tree)"
  have f: "funcs = file_result limit parse read_text fp"
    and "diagnostics limit parse read_text fp = []"
    using analyze_file_result [OF r] by simp_all
  then have "analyzed_tree limit parse read_text fp = Some tree"
    using assms
    by (auto simp: diagnostics_def analyze_file_try_def analyzed_tree_def split: sum.splits)
  then have look: "map_of funcs nm =
     (if filter (is_def nm) (preorder tree) = [] then None
      else Some (record_of fp (last (filter (is_def nm) (preorder tree)))))"
    unfolding f by (simp add: file_result_lookup)
  from m have ne: "filter (is_def nm) (preorder tree) \<noteq> []"
    by (auto simp: filter_empty_conv intro!: bexI [of _ "FunctionDef nm l ar b d r tp"])
  then obtain l' ar' b' d' r' tp' where
    la: "last (filter (is_def nm) (preorder tree)) = FunctionDef nm l' ar' b' d' r' tp'"
    by (rule last_filter_is_def)
  have "map_of funcs nm = Some (record_of fp (FunctionDef nm l' ar' b' d' r' tp'))"
    using look ne la by simp
  then show "\<exists>info. map_of funcs nm = Some info \<and>
           name info = nm \<and> file info = basename fp \<and>
           line info = def_line (last (filter (is_def nm) (preorder tree))) \<and>
           (filter (is_def nm) (preorder tree) = [FunctionDef nm l ar b d r tp] \<longrightarrow>
              line info = l)"
    using la by auto
qed

theorem every_def_is_registered_witness:
  "3 * height nested_example \<le> (1000::nat) \<and>
   FunctionDef ''inner'' 3 (arguments []) [Expr (Call (Name ''y'') [] [])] [] None []
     \<in> set (preorder nested_example) \<and>
   filter (is_def ''inner'') (preorder nested_example) =
     [FunctionDef ''inner'' 3 (arguments []) [Expr (Call (Name ''y'') [] [])] [] None []] \<and>
   (\<exists>funcs info.
      analyze_file stdout_ok 1000 (\<lambda>c. Inr nested_example) (\<lambda>p. Inr ''src'') ''/repo/a.py'' =
        Inr (funcs, []) \<and>
      map_of funcs ''inner'' = Some info \<and>
      name info = ''inner'' \<and> file info = ''a.py'' \<and> line info = 3)"
proof -
  have h: "3 * height nested_example \<le> (1000::nat)"
    by (simp add: nested_example_def height.simps)
  have m: "FunctionDef ''inner'' 3 (arguments []) [Expr (Call (Name ''y'') [] [])] [] None []
     \<in> set (preorder nested_example)"
    by (simp add: nested_example_def preorder.simps)
  have f: "filter (is_def ''inner'') (preorder nested_example) =
     [FunctionDef ''inner'' 3 (arguments []) [Expr (Call (Name ''y'') [] [])] [] None []]"
    by (simp add: nested_example_def preorder.simps)
  note T = every_def_is_registered [where read_text = "\<lambda>p. Inr ''src''"
        and parse = "\<lambda>c. Inr nested_example" and fp = "''/repo/a.py''"
        and content = "''src''" and tree = nested_example and nm = "''inner''" and l = 3
        and ar = "arguments []" and b = "[Expr (Call (Name ''y'') [] [])]" and d = "[]"
        and r = None and tp = "[]" and limit = 1000 and stdout = stdout_ok, OF refl refl]
  from T h obtain funcs where
    a: "analyze_file stdout_ok 1000 (\<lambda>c. Inr nested_example) (\<lambda>p. Inr ''src'') ''/repo/a.py'' =
        Inr (funcs, [])"
    by blast
  from T [where funcs = funcs] a m f have
    "\<exists>info. map_of funcs ''inner'' = Some info \<and>
      name info = ''inner'' \<and> file info = ''a.py'' \<and> line info = 3"
    by auto
  then show ?thesis using h m f a by blast
qed

text \<open>
  The class has a method for \<^verbatim>\<open>FunctionDef\<close> nodes only. An \<^verbatim>\<open>async def\<close> is an
  \<^verbatim>\<open>AsyncFunctionDef\<close> node, which \<open>visit\<close> hands to \<open>generic_visit\<close>: it gets no
  record, and the active function is neither set on entering it nor reset on leaving
  it. The amended property above is about \<^verbatim>\<open>def\<close> nodes and says nothing of these.
\<close>

lemma async_def_has_no_record:
  "analyze_file stdout_ok 1000 (\<lambda>c. Inr async_example) (\<lambda>p. Inr ''src'') ''/repo/a.py'' =
     Inr ([], [])"
  by (simp add: analyze_file_def analyze_file_try_def async_example_def CallGraphAnalyzer_def
      generic_visit.simps)

section \<open>The counts of the report\<close>

text \<open>
  C5. In every report that a run returns, the keys of \<open>functions\<close> are distinct and
  \<open>total_functions\<close> is their number; \<open>call_relationships\<close> is, function by function
  in the order of the registry, one entry for each element of the calls list, so its
  length is the sum of the lengths of the calls lists; and the caller of every entry
  is a key, its callee an element of that key's calls list, its file the file of that
  key's record. A run returns a report when every line it prints is written.
\<close>

theorem report_counts:
  "(generate_call_graph stdout limit parse read_text repo_url python_files = Inr (cg, out)
      \<longrightarrow>
      total_functions cg = int (card (fst ` set (functions cg))) \<and>
      distinct (map fst (functions cg)) \<and>
      length (call_relationships cg) =
        sum_list (map (\<lambda>item. length (calls (snd item))) (functions cg)) \<and>
      call_relationships cg = concat (map relationships_of (functions cg)) \<and>
      (\<forall>rel \<in> set (call_relationships cg).
         \<exists>info. map_of (functions cg) (caller rel) = Some info \<and>
           callee rel \<in> set (calls info) \<and> caller_file rel = file info)) \<and>
   ((\<forall>m. stdout m = None) \<longrightarrow>
      (\<exists>cg out. generate_call_graph stdout limit parse read_text repo_url python_files =
         Inr (cg, out)))"
proof (intro conjI impI)
  assume "\<forall>m. stdout m = None"
  then show "\<exists>cg out. generate_call_graph stdout limit parse read_text repo_url python_files =
         Inr (cg, out)"
    using generate_call_graph_returns [of stdout] by blast
next
  assume "generate_call_graph stdout limit parse read_text repo_url python_files =
    Inr (cg, out)"
  then have cg: "cg = report_of repo_url (merged limit parse read_text python_files [])"
    by (rule generate_call_graph_result)
  show d: "distinct (map fst (functions cg))"
    unfolding cg by (simp add: report_of_def merged_distinct)
  have "card (fst ` set (functions cg)) = length (functions cg)"
    using distinct_card [OF d] by simp
  then show "total_functions cg = int (card (fst ` set (functions cg)))"
    by (simp add: cg report_of_def)
  show r: "call_relationships cg = concat (map relationships_of (functions cg))"
    by (simp add: cg report_of_def)
  show "length (call_relationships cg) =
      sum_list (map (\<lambda>item. length (calls (snd item))) (functions cg))"
    unfolding r by (simp add: length_concat relationships_of_def comp_def)
  show "\<forall>rel \<in> set (call_relationships cg).
         \<exists>info. map_of (functions cg) (caller rel) = Some info \<and>
           callee rel \<in> set (calls info) \<and> caller_file rel = file info"
  proof
    fix rel assume "rel \<in> set (call_relationships cg)"
    then obtain item where i: "item \<in> set (functions cg)"
      and rel: "rel \<in> set (relationships_of item)"
      unfolding r by auto
    have "map_of (functions cg) (fst item) = Some (snd item)"
      using d i by (cases item) simp
    then show "\<exists>info. map_of (functions cg) (caller rel) = Some info \<and>
           callee rel \<in> set (calls info) \<and> caller_file rel = file info"
      using rel by (auto simp: relationships_of_def)
  qed
qed

theorem report_counts_witness:
  "(\<exists>cg out.
      generate_call_graph stdout_ok 1000 parse_two read_two ''url''
        [''/repo/a.py'', ''/repo/b.py''] = Inr (cg, out) \<and>
      total_functions cg = 2 \<and> card (fst ` set (functions cg)) = 2 \<and>
      length (call_relationships cg) = 2 \<and>
      sum_list (map (\<lambda>item. length (calls (snd item))) (functions cg)) = 2 \<and>
      (\<exists>info. map_of (functions cg) ''foo'' = Some info \<and>
         ''c1'' \<in> set (calls info) \<and> ''b.py'' = file info))"
proof -
  let ?cg = "\<lparr>repository = ''url'', total_functions = 2,
           functions =
             [(''foo'', \<lparr>name = ''foo'', file = ''b.py'', line = 7, calls = [''c1'']\<rparr>),
              (''bar'', \<lparr>name = ''bar'', file = ''a.py'', line = 3, calls = [''b1'']\<rparr>)],
           call_relationships =
             [\<lparr>caller = ''foo'', callee = ''c1'', caller_file = ''b.py''\<rparr>,
              \<lparr>caller = ''bar'', callee = ''b1'', caller_file = ''a.py''\<rparr>]\<rparr>"
  note T = report_counts [where stdout = stdout_ok and limit = 1000 and parse = parse_two
      and read_text = read_two and repo_url = "''url''"
      and python_files = "[''/repo/a.py'', ''/repo/b.py'']" and cg = ?cg
      and out = "[Found 2, Analyzing ''a.py'', Analyzing ''b.py'']",
      THEN conjunct1, rule_format, OF two_files_report]
  have rel: "\<lparr>caller = ''foo'', callee = ''c1'', caller_file = ''b.py''\<rparr>
      \<in> set (call_relationships ?cg)"
    by simp
  from T have "\<forall>rel \<in> set (call_relationships ?cg).
      \<exists>info. map_of (functions ?cg) (caller rel) = Some info \<and>
        callee rel \<in> set (calls info) \<and> caller_file rel = file info"
    by blast
  from this [rule_format, OF rel]
  have i: "\<exists>info. map_of (functions ?cg) ''foo'' = Some info \<and>
        ''c1'' \<in> set (calls info) \<and> ''b.py'' = file info"
    by simp
  from T have c: "total_functions ?cg = int (card (fst ` set (functions ?cg)))"
    and l: "length (call_relationships ?cg) =
        sum_list (map (\<lambda>item. length (calls (snd item))) (functions ?cg))"
    by blast+
  have "total_functions ?cg = 2" "length (call_relationships ?cg) = 2" by simp_all
  then have "card (fst ` set (functions ?cg)) = 2"
    "sum_list (map (\<lambda>item. length (calls (snd item))) (functions ?cg)) = 2"
    using c l by simp_all
  then show ?thesis using two_files_report i by (intro exI [of _ ?cg] exI) simp
qed

section \<open>A file that cannot be analyzed\<close>

text \<open>
  When reading the file, parsing its text or visiting its tree raises, the handler
  in \<open>analyze_file\<close> prints a line that names the file and the exception. When that
  line is written, the result is the empty dictionary, and the registry of the run
  is what it is without the file.
\<close>

lemma failed_file_is_skipped:
  assumes "analyze_file_try limit parse read_text fp = Inl e"
    and "stdout (ErrorAnalyzing fp e) = None"
  shows "analyze_file stdout limit parse read_text fp = Inr ([], [ErrorAnalyzing fp e])"
    and "merged limit parse read_text (before @ fp # after) all_functions =
         merged limit parse read_text (before @ after) all_functions"
  using assms by (simp_all add: analyze_file_def file_result_def)

text \<open>
  C6. The handler's own \<^verbatim>\<open>print\<close> is under no \<^verbatim>\<open>try\<close>. When it raises (the line
  shows the path of the file, which the encoding of standard output may not have),
  the exception leaves \<open>analyze_file\<close>; nothing in the loop of
  \<open>generate_call_graph\<close> handles it, so the run ends with it and returns no report,
  whatever files come after. In the example the file \<^verbatim>\<open>c.py\<close> does not parse and is
  in a directory whose name standard output cannot encode: the run over \<^verbatim>\<open>a.py\<close>,
  that file and \<^verbatim>\<open>b.py\<close> ends in \<^verbatim>\<open>UnicodeEncodeError\<close>.
\<close>

theorem diagnostic_print_escapes:
  assumes "analyze_file_try limit parse read_text fp = Inl e"
    and "stdout (ErrorAnalyzing fp e) = Some e'"
  shows "analyze_file stdout limit parse read_text fp = Inl e' \<and>
     (raised stdout (Found (length (before @ fp # after)) #
                     run_output limit parse read_text before @ [Analyzing (basename fp)]) = None
      \<longrightarrow> generate_call_graph stdout limit parse read_text repo_url (before @ fp # after) =
            Inl e')"
proof (intro conjI impI)
  show "analyze_file stdout limit parse read_text fp = Inl e'"
    using assms by (simp add: analyze_file_def)
  assume "raised stdout (Found (length (before @ fp # after)) #
                     run_output limit parse read_text before @ [Analyzing (basename fp)]) = None"
  then have "raised stdout (Found (length (before @ fp # after)) #
      run_output limit parse read_text (before @ fp # after)) = Some e'"
    using assms by (auto simp: raised_append diagnostics_def split: option.splits)
  then show "generate_call_graph stdout limit parse read_text repo_url (before @ fp # after) =
      Inl e'"
    by (simp only: generate_call_graph_eq option.case)
qed

theorem diagnostic_print_escapes_witness:
  "analyze_file_try 1000 parse_two read_two bad_path = Inl SyntaxError \<and>
   stdout_ascii (ErrorAnalyzing bad_path SyntaxError) = Some UnicodeEncodeError \<and>
   raised stdout_ascii
     (Found (length ([''/repo/a.py''] @ bad_path # [''/repo/b.py''])) #
      run_output 1000 parse_two read_two [''/repo/a.py''] @ [Analyzing (basename bad_path)]) =
     None \<and>
   analyze_file stdout_ascii 1000 parse_two read_two bad_path = Inl UnicodeEncodeError \<and>
   generate_call_graph stdout_ascii 1000 parse_two read_two ''url''
     ([''/repo/a.py''] @ bad_path # [''/repo/b.py'']) = Inl UnicodeEncodeError"
proof -
  have t: "analyze_file_try 1000 parse_two read_two bad_path = Inl SyntaxError"
    by (simp add: analyze_file_try_def read_two_def parse_two_def bad_path_def)
  have s: "stdout_ascii (ErrorAnalyzing bad_path SyntaxError) = Some UnicodeEncodeError"
    by (simp add: stdout_ascii_def bad_path_def)
  have r: "raised stdout_ascii
     (Found (length ([''/repo/a.py''] @ bad_path # [''/repo/b.py''])) #
      run_output 1000 parse_two read_two [''/repo/a.py''] @ [Analyzing (basename bad_path)]) =
     None"
    by (simp add: stdout_ascii_def bad_path_def diagnostics_def basename_def)
  show ?thesis
    using t s r
      diagnostic_print_escapes [where stdout = stdout_ascii and limit = 1000
        and parse = parse_two and read_text = read_two and fp = bad_path
        and e = SyntaxError and e' = UnicodeEncodeError and before = "[''/repo/a.py'']"
        and after = "[''/repo/b.py'']" and repo_url = "''url''", OF t s]
    by blast
qed

lemma defs_named_simps [simp]:
  "defs_named n [] = []"
  "defs_named n (xs @ ys) = defs_named n xs @ defs_named n ys"
  by (simp_all add: defs_named_def)




section \<open>Two definitions of one name\<close>






section \<open>The position of a redefined name\<close>

text \<open>
  C10. Merging the result of a file into the registry keeps every key of the registry
  at its position and appends the new keys; a key of the file takes the record of the
  file. So through the rest of the run the keys there so far stay the first keys of the
  registry, in their order. The relationships are listed function by function in the
  order of the registry: in the example, \<open>foo\<close> is redefined by the second file and its
  relationship (from the second file) still comes before the one of \<open>bar\<close>.
\<close>

theorem redefinition_keeps_position:
  "(analyze_file stdout limit parse read_text fp = Inr (funcs, printed) \<longrightarrow>
      map fst (dict_update all_functions funcs) =
        map fst all_functions @
        filter (\<lambda>k. k \<notin> fst ` set all_functions) (map fst funcs) \<and>
      (i < length all_functions \<longrightarrow>
         fst (dict_update all_functions funcs ! i) = fst (all_functions ! i)) \<and>
      (k \<in> fst ` set funcs \<longrightarrow>
         map_of (dict_update all_functions funcs) k = map_of funcs k)) \<and>
   (analyze_files stdout limit parse read_text fps (all_functions, out) = Inr (all', out') \<longrightarrow>
      take (length all_functions) (map fst all') = map fst all_functions) \<and>
   (generate_call_graph stdout limit parse read_text repo_url python_files = Inr (cg, outp)
      \<longrightarrow> call_relationships cg = concat (map relationships_of (functions cg))) \<and>
   analyze_file stdout_ok 1000 parse_two read_two ''/repo/a.py'' =
     Inr ([(''foo'', \<lparr>name = ''foo'', file = ''a.py'', line = 1, calls = [''a1'']\<rparr>),
           (''bar'', \<lparr>name = ''bar'', file = ''a.py'', line = 3, calls = [''b1'']\<rparr>)], []) \<and>
   analyze_file stdout_ok 1000 parse_two read_two ''/repo/b.py'' =
     Inr ([(''foo'', \<lparr>name = ''foo'', file = ''b.py'', line = 7, calls = [''c1'']\<rparr>)], []) \<and>
   generate_call_graph stdout_ok 1000 parse_two read_two ''url''
     [''/repo/a.py'', ''/repo/b.py''] =
     Inr (\<lparr>repository = ''url'', total_functions = 2,
           functions =
             [(''foo'', \<lparr>name = ''foo'', file = ''b.py'', line = 7, calls = [''c1'']\<rparr>),
              (''bar'', \<lparr>name = ''bar'', file = ''a.py'', line = 3, calls = [''b1'']\<rparr>)],
           call_relationships =
             [\<lparr>caller = ''foo'', callee = ''c1'', caller_file = ''b.py''\<rparr>,
              \<lparr>caller = ''bar'', callee = ''b1'', caller_file = ''a.py''\<rparr>]\<rparr>,
          [Found 2, Analyzing ''a.py'', Analyzing ''b.py''])"
proof (intro conjI impI)
  assume "analyze_file stdout limit parse read_text fp = Inr (funcs, printed)"
  then have f: "funcs = file_result limit parse read_text fp"
    by (rule analyze_file_result)
  have dis: "distinct (map fst funcs)" unfolding f by (rule file_result_distinct)
  show k: "map fst (dict_update all_functions funcs) =
     map fst all_functions @
     filter (\<lambda>k. k \<notin> fst ` set all_functions) (map fst funcs)"
    by (rule keys_dict_update [OF dis])
  {
    assume i: "i < length all_functions"
    have "length (dict_update all_functions funcs) =
        length (map fst (dict_update all_functions funcs))" by simp
    then have "i < length (dict_update all_functions funcs)"
      using i unfolding k by simp
    then have "fst (dict_update all_functions funcs ! i) =
        map fst (dict_update all_functions funcs) ! i" by simp
    also have "\<dots> = map fst all_functions ! i"
      unfolding k using i by (simp add: nth_append)
    finally show "fst (dict_update all_functions funcs ! i) = fst (all_functions ! i)"
      using i by simp
  }
  {
    assume "k \<in> fst ` set funcs"
    then have "map_of funcs k \<noteq> None" by (simp add: map_of_eq_None_iff)
    then show "map_of (dict_update all_functions funcs) k = map_of funcs k"
      using dis by (auto simp: map_of_dict_update split: option.splits)
  }
next
  assume "analyze_files stdout limit parse read_text fps (all_functions, out) =
    Inr (all', out')"
  then have "all' = merged limit parse read_text fps all_functions"
    by (auto simp: analyze_files_eq split: option.splits)
  then show "take (length all_functions) (map fst all') = map fst all_functions"
    by (simp add: merged_prefix)
next
  assume "generate_call_graph stdout limit parse read_text repo_url python_files =
    Inr (cg, outp)"
  then have "cg = report_of repo_url (merged limit parse read_text python_files [])"
    by (rule generate_call_graph_result)
  then show "call_relationships cg = concat (map relationships_of (functions cg))"
    by (simp add: report_of_def)
next
  show "analyze_file stdout_ok 1000 parse_two read_two ''/repo/a.py'' =
     Inr ([(''foo'', \<lparr>name = ''foo'', file = ''a.py'', line = 1, calls = [''a1'']\<rparr>),
           (''bar'', \<lparr>name = ''bar'', file = ''a.py'', line = 3, calls = [''b1'']\<rparr>)], [])"
    by (simp add: analyze_file_def)
  show "analyze_file stdout_ok 1000 parse_two read_two ''/repo/b.py'' =
     Inr ([(''foo'', \<lparr>name = ''foo'', file = ''b.py'', line = 7, calls = [''c1'']\<rparr>)], [])"
    by (simp add: analyze_file_def)
  show "generate_call_graph stdout_ok 1000 parse_two read_two ''url''
     [''/repo/a.py'', ''/repo/b.py''] =
     Inr (\<lparr>repository = ''url'', total_functions = 2,
           functions =
             [(''foo'', \<lparr>name = ''foo'', file = ''b.py'', line = 7, calls = [''c1'']\<rparr>),
              (''bar'', \<lparr>name = ''bar'', file = ''a.py'', line = 3, calls = [''b1'']\<rparr>)],
           call_relationships =
             [\<lparr>caller = ''foo'', callee = ''c1'', caller_file = ''b.py''\<rparr>,
              \<lparr>caller = ''bar'', callee = ''b1'', caller_file = ''a.py''\<rparr>]\<rparr>,
          [Found 2, Analyzing ''a.py'', Analyzing ''b.py''])"
    by (rule two_files_report)
qed

theorem redefinition_keeps_position_witness:
  "analyze_file stdout_ok 1000 parse_two read_two ''/repo/b.py'' =
     Inr ([(''foo'', \<lparr>name = ''foo'', file = ''b.py'', line = 7, calls = [''c1'']\<rparr>)], []) \<and>
   (0::nat) < length
     [(''foo'', \<lparr>name = ''foo'', file = ''a.py'', line = 1, calls = [''a1'']\<rparr>),
      (''bar'', \<lparr>name = ''bar'', file = ''a.py'', line = 3, calls = [''b1'']\<rparr>)] \<and>
   ''foo'' \<in> fst ` set
     [(''foo'', \<lparr>name = ''foo'', file = ''b.py'', line = 7, calls = [''c1'']\<rparr>)] \<and>
   map fst (dict_update
       [(''foo'', \<lparr>name = ''foo'', file = ''a.py'', line = 1, calls = [''a1'']\<rparr>),
        (''bar'', \<lparr>name = ''bar'', file = ''a.py'', line = 3, calls = [''b1'']\<rparr>)]
       [(''foo'', \<lparr>name = ''foo'', file = ''b.py'', line = 7, calls = [''c1'']\<rparr>)]) =
     [''foo'', ''bar''] \<and>
   fst (dict_update
       [(''foo'', \<lparr>name = ''foo'', file = ''a.py'', line = 1, calls = [''a1'']\<rparr>),
        (''bar'', \<lparr>name = ''bar'', file = ''a.py'', line = 3, calls = [''b1'']\<rparr>)]
       [(''foo'', \<lparr>name = ''foo'', file = ''b.py'', line = 7, calls = [''c1'']\<rparr>)] ! 0) =
     ''foo'' \<and>
   map_of (dict_update
       [(''foo'', \<lparr>name = ''foo'', file = ''a.py'', line = 1, calls = [''a1'']\<rparr>),
        (''bar'', \<lparr>name = ''bar'', file = ''a.py'', line = 3, calls = [''b1'']\<rparr>)]
       [(''foo'', \<lparr>name = ''foo'', file = ''b.py'', line = 7, calls = [''c1'']\<rparr>)]) ''foo'' =
     Some \<lparr>name = ''foo'', file = ''b.py'', line = 7, calls = [''c1'']\<rparr>"
proof -
  let ?a = "[(''foo'', \<lparr>name = ''foo'', file = ''a.py'', line = 1, calls = [''a1'']\<rparr>),
        (''bar'', \<lparr>name = ''bar'', file = ''a.py'', line = 3, calls = [''b1'']\<rparr>)]"
  let ?b = "[(''foo'', \<lparr>name = ''foo'', file = ''b.py'', line = 7, calls = [''c1'']\<rparr>)]"
  note T = redefinition_keeps_position [where stdout = stdout_ok and limit = 1000
      and parse = parse_two and read_text = read_two
      and fp = "''/repo/b.py''" and funcs = ?b and printed = "[]"
      and all_functions = ?a
      and i = 0 and k = "''foo''" and fps = "[]" and out = "[]" and all' = "[]" and out' = "[]"
      and repo_url = "''url''" and python_files = "[]" and cg = "report_of [] []"
      and outp = "[]"]
  have b: "analyze_file stdout_ok 1000 parse_two read_two ''/repo/b.py'' = Inr (?b, [])"
    using T by blast
  have l: "(0::nat) < length ?a" and m: "''foo'' \<in> fst ` set ?b"
    by simp_all
  from T b have ks: "map fst (dict_update ?a ?b) =
      map fst ?a @ filter (\<lambda>k. k \<notin> fst ` set ?a) (map fst ?b)" by blast
  from T b l have p: "fst (dict_update ?a ?b ! 0) = fst (?a ! 0)" by blast
  from T b m have v: "map_of (dict_update ?a ?b) ''foo'' = map_of ?b ''foo''" by blast
  have "map fst (dict_update ?a ?b) = [''foo'', ''bar'']"
    unfolding ks by simp
  moreover have "fst (dict_update ?a ?b ! 0) = ''foo''"
    unfolding p by simp
  moreover have "map_of (dict_update ?a ?b) ''foo'' =
      Some \<lparr>name = ''foo'', file = ''b.py'', line = 7, calls = [''c1'']\<rparr>"
    unfolding v by simp
  ultimately show ?thesis using b l m by blast
qed

lemma rel_sum_bind:
  assumes "rel_sum (=) R x y"
    and "\<And>a b. x = Inr a \<Longrightarrow> y = Inr b \<Longrightarrow> R a b \<Longrightarrow> rel_sum (=) R (f a) (g b)"
  shows "rel_sum (=) R (case x of Inl e \<Rightarrow> Inl e | Inr a \<Rightarrow> f a)
                       (case y of Inl e \<Rightarrow> Inl e | Inr b \<Rightarrow> g b)"
  using assms by (cases x; cases y) simp_all

lemma visit_same_but_dir:
  "same_but_dir a a2 \<Longrightarrow> rel_sum (=) same_but_dir (visit d a t) (visit d a2 t)"
  "is_FunctionDef t \<Longrightarrow> same_but_dir a a2 \<Longrightarrow>
     rel_sum (=) same_but_dir (visit_FunctionDef d a t) (visit_FunctionDef d a2 t)"
  "same_but_dir a a2 \<Longrightarrow> rel_sum (=) same_but_dir (visit_Call d a t) (visit_Call d a2 t)"
  "same_but_dir a a2 \<Longrightarrow> rel_sum (=) same_but_dir (generic_visit d a t) (generic_visit d a2 t)"
  "same_but_dir a a2 \<Longrightarrow> rel_sum (=) same_but_dir (visit_nodes d a ts) (visit_nodes d a2 ts)"
proof (induction d a t and d a t and d a t and d a t and d a ts
       arbitrary: a2 and a2 and a2 and a2 and a2
       rule: visit_visit_FunctionDef_visit_Call_generic_visit_visit_nodes.induct)
  case (1 depth self nm lineno args body decorator_list returns type_params)
  then show ?case by (cases "depth = 0") (simp_all del: visit_FunctionDef.simps)
next
  case (2 depth self func args kws)
  then show ?case by (cases "depth = 0") simp_all
next
  case (4 depth self func_name lineno args body decorator_list returns type_params)
  let ?t = "FunctionDef func_name lineno args body decorator_list returns type_params"
  let ?e = "\<lambda>s. s\<lparr>analyzer.functions :=
                      AList.update func_name
                        \<lparr>name = func_name, file = basename (file_path s),
                         line = lineno, calls = []\<rparr>
                        (analyzer.functions s),
                    current_function := Some func_name\<rparr>"
  show ?case
  proof (cases "depth = 0")
    case True
    then show ?thesis by simp
  next
    case False
    have "same_but_dir (?e self) (?e a2)"
      using "4.prems"(2) by (simp add: same_but_dir_def)
    then have g: "rel_sum (=) same_but_dir (generic_visit (depth - 1) (?e self) ?t)
        (generic_visit (depth - 1) (?e a2) ?t)"
      by (rule "4.IH" [OF False])
    have "rel_sum (=) same_but_dir
        (case generic_visit (depth - 1) (?e self) ?t of Inl e \<Rightarrow> Inl e
         | Inr s \<Rightarrow> Inr (s\<lparr>current_function := None\<rparr>))
        (case generic_visit (depth - 1) (?e a2) ?t of Inl e \<Rightarrow> Inl e
         | Inr s \<Rightarrow> Inr (s\<lparr>current_function := None\<rparr>))"
      by (rule rel_sum_bind [OF g]) (simp add: same_but_dir_def)
    then show ?thesis using False by simp
  qed
next
  case (5 depth self node)
  have eq: "current_function a2 = current_function self"
    "analyzer.functions a2 = analyzer.functions self"
    using "5.prems" by (simp_all add: same_but_dir_def)
  show ?case
  proof (cases "depth = 0")
    case True
    then show ?thesis by (simp add: visit_Call.simps)
  next
    case d: False
    show ?thesis
    proof (cases "truthy (current_function self)")
      case False
      then show ?thesis using "5.IH"(3) [OF d False "5.prems"] eq d
        by (simp add: visit_Call.simps)
    next
      case True
      show ?thesis
      proof (cases "truthy (get_call_name node)")
        case f: False
        then show ?thesis using "5.IH"(2) [OF d True refl f "5.prems"] True eq d
          by (simp add: visit_Call.simps)
      next
        case t: True
        show ?thesis
        proof (cases "map_of (analyzer.functions self) (the (current_function self))")
          case None
          then show ?thesis using True t eq d by (simp add: visit_Call.simps)
        next
          case (Some info)
          let ?u = "\<lambda>s. s\<lparr>analyzer.functions :=
                             AList.update (the (current_function self))
                               (info\<lparr>calls := calls info @ [the (get_call_name node)]\<rparr>)
                               (analyzer.functions self)\<rparr>"
          have "same_but_dir (?u self) (?u a2)"
            using "5.prems" by (simp add: same_but_dir_def)
          then have "rel_sum (=) same_but_dir (generic_visit (depth - 1) (?u self) node)
              (generic_visit (depth - 1) (?u a2) node)"
            by (rule "5.IH"(1) [OF d True refl t Some])
          then show ?thesis using True t Some eq d by (simp add: visit_Call.simps)
        qed
      qed
    qed
  qed
next
  case (6 depth self node)
  then show ?case by (cases "depth = 0") (simp_all add: generic_visit.simps)
next
  case (8 depth self item items)
  have v: "rel_sum (=) same_but_dir (visit depth self item) (visit depth a2 item)"
    by (rule "8.IH"(1) [OF "8.prems"])
  have "rel_sum (=) same_but_dir
      (case visit depth self item of Inl e \<Rightarrow> Inl e | Inr s \<Rightarrow> visit_nodes depth s items)
      (case visit depth a2 item of Inl e \<Rightarrow> Inl e | Inr s \<Rightarrow> visit_nodes depth s items)"
    by (rule rel_sum_bind [OF v]) (rule "8.IH"(2))
  then show ?case by simp
qed simp_all

lemma analyze_file_try_same:
  assumes "basename fp1 = basename fp2" and "read1 fp1 = read2 fp2"
  shows "analyze_file_try limit parse read1 fp1 = analyze_file_try limit parse read2 fp2"
proof (cases "read1 fp1")
  case (Inl e)
  then show ?thesis using assms(2) by (simp add: analyze_file_try_def)
next
  case (Inr content)
  show ?thesis
  proof (cases "parse content")
    case (Inl e)
    then show ?thesis using Inr assms(2) by (simp add: analyze_file_try_def)
  next
    case tree: (Inr tree)
    have "same_but_dir (CallGraphAnalyzer fp1) (CallGraphAnalyzer fp2)"
      using assms(1) by (simp add: same_but_dir_def CallGraphAnalyzer_def)
    then have "rel_sum (=) same_but_dir (visit limit (CallGraphAnalyzer fp1) tree)
        (visit limit (CallGraphAnalyzer fp2) tree)"
      by (rule visit_same_but_dir(1))
    then show ?thesis using Inr tree assms(2)
      by (cases "visit limit (CallGraphAnalyzer fp1) tree";
          cases "visit limit (CallGraphAnalyzer fp2) tree")
         (simp_all add: analyze_file_try_def same_but_dir_def)
  qed
qed

lemma merged_same:
  assumes "length fps1 = length fps2"
    and "map basename fps1 = map basename fps2" and "map read1 fps1 = map read2 fps2"
  shows "merged limit parse read1 fps1 acc = merged limit parse read2 fps2 acc"
  using assms
proof (induction fps1 fps2 arbitrary: acc rule: list_induct2)
  case Nil
  then show ?case by simp
next
  case (Cons fp1 fps1 fp2 fps2)
  have "analyze_file_try limit parse read1 fp1 = analyze_file_try limit parse read2 fp2"
    using Cons.prems by (intro analyze_file_try_same) simp_all
  then have "file_result limit parse read1 fp1 = file_result limit parse read2 fp2"
    by (simp add: file_result_def)
  then show ?case using Cons by simp
qed

section \<open>Two runs on the same files\<close>

text \<open>
  C7. The model is a function of its inputs, so a run repeated on the same inputs
  gives the same result. More is true: two runs whose files have, in order, the same
  base names and the same outcome of reading (the same text, or the same failure), with
  the same limit of the recursion, return the same report when they both return one,
  whatever the directories the files are in, as when the repository is cloned into a
  new temporary directory: the same registry in the same order, the same count and the
  same relationships. A run returns a report when every line it prints is written.
\<close>

theorem runs_agree:
  assumes "map basename fps1 = map basename fps2" and "map read1 fps1 = map read2 fps2"
  shows "(generate_call_graph stdout limit parse read1 repo_url fps1 = Inr (cg, out) \<longrightarrow>
          generate_call_graph stdout' limit parse read2 repo_url fps2 = Inr (cg', out') \<longrightarrow>
          cg = cg') \<and>
         ((\<forall>m. stdout m = None) \<longrightarrow>
          (\<exists>r. generate_call_graph stdout limit parse read1 repo_url fps1 = Inr r)) \<and>
         ((\<forall>m. stdout' m = None) \<longrightarrow>
          (\<exists>r. generate_call_graph stdout' limit parse read2 repo_url fps2 = Inr r))"
proof (intro conjI impI)
  assume 1: "generate_call_graph stdout limit parse read1 repo_url fps1 = Inr (cg, out)"
    and 2: "generate_call_graph stdout' limit parse read2 repo_url fps2 = Inr (cg', out')"
  have "length (map basename fps1) = length (map basename fps2)"
    using assms(1) by simp
  then have "length fps1 = length fps2" by simp
  then have "merged limit parse read1 fps1 [] = merged limit parse read2 fps2 []"
    using assms by (rule merged_same)
  then show "cg = cg'"
    using generate_call_graph_result(1) [OF 1] generate_call_graph_result(1) [OF 2] by simp
next
  assume "\<forall>m. stdout m = None"
  then show "\<exists>r. generate_call_graph stdout limit parse read1 repo_url fps1 = Inr r"
    using generate_call_graph_returns [of stdout] by blast
next
  assume "\<forall>m. stdout' m = None"
  then show "\<exists>r. generate_call_graph stdout' limit parse read2 repo_url fps2 = Inr r"
    using generate_call_graph_returns [of stdout'] by blast
qed

theorem runs_agree_witness:
  "map basename [''/tmp/run1/a.py'', ''/tmp/run1/b.py''] =
     map basename [''/tmp/run2/a.py'', ''/tmp/run2/b.py''] \<and>
   map (\<lambda>p. read_by_name p) [''/tmp/run1/a.py'', ''/tmp/run1/b.py''] =
     map (\<lambda>p. read_by_name p) [''/tmp/run2/a.py'', ''/tmp/run2/b.py''] \<and>
   (\<exists>cg out1 out2.
      generate_call_graph stdout_ok 1000 parse_two read_by_name ''url''
        [''/tmp/run1/a.py'', ''/tmp/run1/b.py''] = Inr (cg, out1) \<and>
      generate_call_graph stdout_ok 1000 parse_two read_by_name ''url''
        [''/tmp/run2/a.py'', ''/tmp/run2/b.py''] = Inr (cg, out2))"
proof -
  have b: "map basename [''/tmp/run1/a.py'', ''/tmp/run1/b.py''] =
     map basename [''/tmp/run2/a.py'', ''/tmp/run2/b.py'']"
    by (simp add: basename_def)
  have r: "map read_by_name [''/tmp/run1/a.py'', ''/tmp/run1/b.py''] =
     map read_by_name [''/tmp/run2/a.py'', ''/tmp/run2/b.py'']"
    by (simp add: read_by_name_def basename_def)
  have ok: "\<forall>m. stdout_ok m = None" by (simp add: stdout_ok_def)
  note T = runs_agree [OF b r, where stdout = stdout_ok and stdout' = stdout_ok
      and limit = 1000 and parse = parse_two and repo_url = "''url''"]
  from T ok obtain r1 where
    1: "generate_call_graph stdout_ok 1000 parse_two read_by_name ''url''
        [''/tmp/run1/a.py'', ''/tmp/run1/b.py''] = Inr r1"
    by blast
  from T ok obtain r2 where
    2: "generate_call_graph stdout_ok 1000 parse_two read_by_name ''url''
        [''/tmp/run2/a.py'', ''/tmp/run2/b.py''] = Inr r2"
    by blast
  from T [where cg = "fst r1" and out = "snd r1" and cg' = "fst r2" and out' = "snd r2"] 1 2
  have "fst r1 = fst r2" by simp
  then have "generate_call_graph stdout_ok 1000 parse_two read_by_name ''url''
        [''/tmp/run1/a.py'', ''/tmp/run1/b.py''] = Inr (fst r1, snd r1) \<and>
      generate_call_graph stdout_ok 1000 parse_two read_by_name ''url''
        [''/tmp/run2/a.py'', ''/tmp/run2/b.py''] = Inr (fst r1, snd r2)"
    using 1 2 by (cases r1; cases r2) simp
  then show ?thesis using b r by blast
qed

end
